theory Spec2Isabelle
  imports Main "HOL-Library.Sublist" "HOL-Library.Word"
begin

section \<open>Path strings (Go packages \<open>strings\<close> and \<open>path\<close>)\<close>

text \<open>\<open>strings.Replace(s, "\\", "/", -1)\<close>: every backslash becomes a slash.\<close>

definition slashes :: "string \<Rightarrow> string" where
  "slashes s = map (\<lambda>c. if c = CHR 0x5C then CHR ''/'' else c) s"

text \<open>\<open>strings.HasSuffix(s, "/")\<close>.\<close>

definition HasSuffixSlash :: "string \<Rightarrow> bool" where
  "HasSuffixSlash s = (s \<noteq> [] \<and> last s = CHR ''/'')"

text \<open>Splitting at every slash; the pieces may be empty.\<close>

primrec splitc :: "string \<Rightarrow> string list" where
  "splitc [] = [[]]"
| "splitc (x # xs) =
     (if x = CHR ''/'' then [] # splitc xs
      else (case splitc xs of [] \<Rightarrow> [[x]] | y # ys \<Rightarrow> (x # y) # ys))"

primrec joinc :: "string list \<Rightarrow> string" where
  "joinc [] = []"
| "joinc (c # cs) = (if cs = [] then c else c @ CHR ''/'' # joinc cs)"

text \<open>
  One element of a path pushed on the stack of elements kept so far (newest first), as
  \<open>path.Clean\<close> does: a \<open>..\<close> removes the element before it, is dropped at the root
  of a rooted path and is kept at the start of a relative one.
\<close>

definition cstep :: "bool \<Rightarrow> string \<Rightarrow> string list \<Rightarrow> string list" where
  "cstep rooted c st =
     (if c = ''..'' then
        (case st of
           [] \<Rightarrow> if rooted then [] else [''..'']
         | t # ts \<Rightarrow> if t = ''..'' then c # t # ts else ts)
      else c # st)"

definition plain :: "string \<Rightarrow> bool" where
  "plain c = (c \<noteq> [] \<and> c \<noteq> ''.'')"

definition ccomps :: "bool \<Rightarrow> string \<Rightarrow> string list" where
  "ccomps rooted s = rev (fold (cstep rooted) (filter plain (splitc s)) [])"

text \<open>\<open>path.Clean\<close>.\<close>

definition Clean :: "string \<Rightarrow> string" where
  "Clean s =
     (if s = [] then ''.''
      else if hd s = CHR ''/'' then CHR ''/'' # joinc (ccomps True s)
      else (let b = joinc (ccomps False s) in if b = [] then ''.'' else b))"

text \<open>\<open>path.Join\<close> (and \<open>filepath.Join\<close> on a slash-separated host): the empty
  elements are ignored, the rest joined with slashes and cleaned; no element gives the
  empty string.\<close>

definition Join :: "string list \<Rightarrow> string" where
  "Join elems =
     (let es = filter (\<lambda>e. e \<noteq> []) elems in if es = [] then [] else Clean (joinc es))"

text \<open>\<open>path.Base\<close>: the last element, after the trailing slashes are removed.\<close>

definition stripSlashes :: "string \<Rightarrow> string" where
  "stripSlashes s = rev (dropWhile (\<lambda>c. c = CHR ''/'') (rev s))"

definition Base :: "string \<Rightarrow> string" where
  "Base p =
     (if p = [] then ''.''
      else (let q = stripSlashes p;
                b = rev (takeWhile (\<lambda>c. c \<noteq> CHR ''/'') (rev q))
            in if b = [] then ''/'' else b))"

text \<open>\<open>path.Dir\<close>: everything up to the last slash, cleaned.\<close>

definition Dir_of :: "string \<Rightarrow> string" where
  "Dir_of p = Clean (rev (dropWhile (\<lambda>c. c \<noteq> CHR ''/'') (rev p)))"

section \<open>The file system\<close>

text \<open>
  The operating system resolves a path string to the list of its elements below the
  root (the working directory is the root; there are no symbolic links). The file
  system is an association list from resolved paths to nodes, in the order in which a
  directory listing returns them.
\<close>

type_synonym fpath = "string list"

definition resolve :: "string \<Rightarrow> fpath" where
  "resolve s = ccomps True s"

datatype error =
    ENOENT | ENOTDIR | EISDIR | ErrInvalid | ErrChecksum | ErrWrite
  | Rejected string | NilPanic

text \<open>A member of a written archive: name, declared uncompressed size (32 bits), body.\<close>

datatype fdata = Raw "nat list" | Packed "(string \<times> 32 word \<times> fdata) list"

type_synonym member = "string \<times> 32 word \<times> fdata"

datatype node = Directory | Regular fdata

type_synonym filesys = "(fpath \<times> node) list"

datatype event =
    EvMkdirAll fpath
  | EvCreate fpath
  | EvWrite fpath
  | EvRemoveAll fpath
  | EvOpen fpath
  | EvReaddir fpath
  | EvHeader string
  | EvVisit string "error option"

record world =
  fs :: filesys
  trace :: "event list"

definition emit :: "event \<Rightarrow> world \<Rightarrow> world" where
  "emit e w = w\<lparr>trace := trace w @ [e]\<rparr>"

definition fs_lookup :: "filesys \<Rightarrow> fpath \<Rightarrow> node option" where
  "fs_lookup f p = (if p = [] then Some Directory else map_of f p)"

fun fs_put :: "fpath \<Rightarrow> node \<Rightarrow> filesys \<Rightarrow> filesys" where
  "fs_put k v [] = [(k, v)]"
| "fs_put k v ((k', v') # r) = (if k' = k then (k, v) # r else (k', v') # fs_put k v r)"

text \<open>\<open>os.MkdirAll\<close>: the directories on the way down are created until the path
  runs into a regular file.\<close>

fun mkdirs :: "fpath \<Rightarrow> fpath \<Rightarrow> filesys \<Rightarrow> error option \<times> filesys" where
  "mkdirs done [] f = (None, f)"
| "mkdirs done (c # cs) f =
     (let p = done @ [c] in
      case fs_lookup f p of
        Some (Regular d) \<Rightarrow> (Some ENOTDIR, f)
      | Some Directory \<Rightarrow> mkdirs p cs f
      | None \<Rightarrow> mkdirs p cs (fs_put p Directory f))"

definition os_MkdirAll :: "string \<Rightarrow> world \<Rightarrow> error option \<times> world" where
  "os_MkdirAll p w =
     (let r = mkdirs [] (resolve p) (fs w)
      in (fst r, emit (EvMkdirAll (resolve p)) (w\<lparr>fs := snd r\<rparr>)))"

text \<open>\<open>os.Create\<close>: the parent must be a directory and the path must not be one; the
  file is created or truncated. The handle is the resolved path.\<close>

definition os_Create :: "string \<Rightarrow> world \<Rightarrow> (error + fpath) \<times> world" where
  "os_Create p w =
     (let k = resolve p; w' = emit (EvCreate k) w in
      if k = [] then (Inl EISDIR, w')
      else (case fs_lookup (fs w) (butlast k) of
              None \<Rightarrow> (Inl ENOENT, w')
            | Some (Regular d) \<Rightarrow> (Inl ENOTDIR, w')
            | Some Directory \<Rightarrow>
                (case fs_lookup (fs w) k of
                   Some Directory \<Rightarrow> (Inl EISDIR, w')
                 | _ \<Rightarrow> (Inr k, w'\<lparr>fs := fs_put k (Regular (Raw [])) (fs w)\<rparr>))))"

text \<open>\<open>os.RemoveAll\<close>: the path and everything below it goes.\<close>

definition os_RemoveAll :: "string \<Rightarrow> world \<Rightarrow> world" where
  "os_RemoveAll p w =
     emit (EvRemoveAll (resolve p))
       (w\<lparr>fs := filter (\<lambda>(k, v). \<not> prefix (resolve p) k) (fs w)\<rparr>)"

text \<open>\<open>os.Open\<close> and \<open>Stat\<close>: the node at the path.\<close>

definition os_Open :: "string \<Rightarrow> world \<Rightarrow> (error + node) \<times> world" where
  "os_Open p w =
     (let k = resolve p; w' = emit (EvOpen k) w in
      case fs_lookup (fs w) k of None \<Rightarrow> (Inl ENOENT, w') | Some n \<Rightarrow> (Inr n, w'))"

section \<open>Archive entries being read\<close>

text \<open>
  An entry of an opened archive (\<open>zip.File\<close>): its name, what its header says, the
  content, and the errors that opening it or reading it to the end give.
\<close>

record zfile =
  zName :: string
  zIsDir :: bool
  zSize :: nat
  zData :: fdata
  zOpenErr :: "error option"
  zReadErr :: "error option"

record fileinfo =
  fiName :: string
  fiIsDir :: bool
  fiSize :: int

definition FileInfo :: "zfile \<Rightarrow> fileinfo" where
  "FileInfo f = \<lparr>fiName = Base (zName f),
                 fiIsDir = (zIsDir f \<or> HasSuffixSlash (zName f)),
                 fiSize = int (zSize f)\<rparr>"

text \<open>
  \<open>io.Copy(fw, rc)\<close> into a created file: the bytes read are written, and an error
  of the reader (found at the end of the data) is returned. On the nil file that a
  failed \<open>os.Create\<close> leaves, the write is refused with \<open>os.ErrInvalid\<close>.
\<close>

definition io_Copy :: "fpath option \<Rightarrow> fdata \<Rightarrow> error option \<Rightarrow> world \<Rightarrow> error option \<times> world" where
  "io_Copy fw d rerr w =
     (case fw of
        None \<Rightarrow> (Some ErrInvalid, w)
      | Some k \<Rightarrow> (rerr, emit (EvWrite k) (w\<lparr>fs := fs_put k (Regular d) (fs w)\<rparr>)))"

text \<open>
  \<open>extractFile\<close> (the package-level function). The results of both \<open>os.MkdirAll\<close>
  and \<open>os.Create\<close> are dropped: after \<open>fw, _ := os.Create(...)\<close> the test
  \<open>err != nil\<close> reads the error of \<open>f.Open()\<close> again, which is nil there.
\<close>

definition extractFile :: "zfile \<Rightarrow> string \<Rightarrow> world \<Rightarrow> error option \<times> world" where
  "extractFile f destPath w =
     (let w1 = snd (os_MkdirAll (Join [destPath, Dir_of (zName f)]) w) in
      case zOpenErr f of
        Some e \<Rightarrow> (Some e, w1)
      | None \<Rightarrow>
          (let c = os_Create (Join [destPath, zName f]) w1;
               fw = (case fst c of Inl e \<Rightarrow> None | Inr k \<Rightarrow> Some k)
           in io_Copy fw (zData f) (zReadErr f) (snd c)))"

text \<open>\<open>isEntry\<close>.\<close>

primrec isEntry :: "string \<Rightarrow> string list \<Rightarrow> bool" where
  "isEntry name [] = False"
| "isEntry name (e # es) = (if e = name then True else isEntry name es)"

section \<open>The archive being written and the session\<close>

text \<open>
  A \<open>zip.Writer\<close>: the members written so far, and the names for which
  \<open>CreateHeader\<close> fails (the underlying writer refusing the bytes).
\<close>

record zwriter =
  members :: "member list"
  hdrErr :: "string \<Rightarrow> error option"

text \<open>An entry of the session's own list (\<open>*File\<close>): the header name and the path the
  content comes from.\<close>

record File =
  Name :: string
  absPath :: string

text \<open>
  \<open>ZipArchive\<close>. The embedded \<open>*zip.ReadCloser\<close> is \<open>None\<close> when nil and the list
  of the entries of the opened archive otherwise.
\<close>

record ZipArchive =
  ReadCloser :: "zfile list option"
  FileName :: string
  Permission :: nat
  files :: "File list"
  isHasChanged :: bool
  writer :: zwriter
  isHasWriter :: bool

section \<open>Extraction\<close>

text \<open>A visitor is a closure: it has a state of its own, and may return an error.\<close>

type_synonym 'v visitor = "'v \<Rightarrow> string \<Rightarrow> fileinfo \<Rightarrow> error option \<times> 'v"

definition visit :: "'v visitor \<Rightarrow> string \<Rightarrow> fileinfo \<Rightarrow> world \<times> 'v \<Rightarrow> error option \<times> world \<times> 'v" where
  "visit fn name fi s =
     (let r = fn (snd s) name fi in (fst r, emit (EvVisit name (fst r)) (fst s), snd r))"

text \<open>\<open>defaultExtractFunc\<close> and \<open>defaultPackFunc\<close> print and return nil.\<close>

definition defaultExtractFunc :: "unit visitor" where
  "defaultExtractFunc v fullName fi = (None, v)"

definition defaultPackFunc :: "unit visitor" where
  "defaultPackFunc v fullName fi = (None, v)"

text \<open>The body of the loop of \<open>ExtractToFunc\<close> for one entry \<open>f\<close>, whose name has
  been normalised already.\<close>

definition extractDir :: "'v visitor \<Rightarrow> string \<Rightarrow> zfile \<Rightarrow> world \<times> 'v \<Rightarrow> error option \<times> world \<times> 'v" where
  "extractDir fn destPath f s =
     (case visit fn (zName f) (FileInfo f) s of
        (Some e, w, v) \<Rightarrow> (Some e, w, v)
      | (None, w, v) \<Rightarrow> (None, snd (os_MkdirAll (Join [destPath, zName f]) w), v))"

definition extractReg :: "'v visitor \<Rightarrow> string \<Rightarrow> zfile \<Rightarrow> world \<times> 'v \<Rightarrow> error option \<times> world \<times> 'v" where
  "extractReg fn destPath f s =
     (case visit fn (zName f) (FileInfo f) s of
        (Some e, w, v) \<Rightarrow> (Some e, w, v)
      | (None, w, v) \<Rightarrow> (let r = extractFile f destPath w in (fst r, snd r, v)))"

definition extractBody :: "'v visitor \<Rightarrow> string \<Rightarrow> string list \<Rightarrow> zfile \<Rightarrow> world \<times> 'v \<Rightarrow> error option \<times> world \<times> 'v" where
  "extractBody fn destPath entries f s =
     (let isHasEntry = (length entries > 0) in
      if HasSuffixSlash (zName f) then
        (if isHasEntry then
           (if isEntry (zName f) entries then extractDir fn destPath f s
            else (None, fst s, snd s))
         else extractDir fn destPath f s)
      else
        (if isHasEntry then
           (if isEntry (zName f) entries then extractReg fn destPath f s
            else (None, fst s, snd s))
         else extractReg fn destPath f s))"

definition rename :: "zfile \<Rightarrow> zfile" where
  "rename f = f\<lparr>zName := slashes (zName f)\<rparr>"

text \<open>The loop over \<open>z.File\<close>. The entries are pointers: the normalised name stays in
  every entry the loop reached.\<close>

fun extractLoop :: "'v visitor \<Rightarrow> string \<Rightarrow> string list \<Rightarrow> zfile list \<Rightarrow> world \<times> 'v
    \<Rightarrow> error option \<times> zfile list \<times> world \<times> 'v" where
  "extractLoop fn destPath entries [] s = (None, [], fst s, snd s)"
| "extractLoop fn destPath entries (f # r) s =
     (case extractBody fn destPath entries (rename f) s of
        (Some e, w, v) \<Rightarrow> (Some e, rename f # r, w, v)
      | (None, w, v) \<Rightarrow>
          (case extractLoop fn destPath entries r (w, v) of
             (res, r', w', v') \<Rightarrow> (res, rename f # r', w', v')))"

text \<open>\<open>ExtractToFunc\<close>. Reading \<open>z.File\<close> through a nil \<open>ReadCloser\<close> panics, after
  the destination has been created.\<close>

definition ExtractToFunc :: "ZipArchive \<Rightarrow> string \<Rightarrow> 'v visitor \<Rightarrow> string list \<Rightarrow> world \<times> 'v
    \<Rightarrow> error option \<times> ZipArchive \<times> world \<times> 'v" where
  "ExtractToFunc z destPath0 fn entries s =
     (let destPath = slashes destPath0;
          w1 = snd (os_MkdirAll destPath (fst s))
      in case ReadCloser z of
           None \<Rightarrow> (Some NilPanic, z, w1, snd s)
         | Some zf \<Rightarrow>
             (case extractLoop fn destPath entries zf (w1, snd s) of
                (res, zf', w', v') \<Rightarrow> (res, z\<lparr>ReadCloser := Some zf'\<rparr>, w', v')))"

definition ExtractTo :: "ZipArchive \<Rightarrow> string \<Rightarrow> string list \<Rightarrow> world
    \<Rightarrow> error option \<times> ZipArchive \<times> world" where
  "ExtractTo z destPath entries w =
     (case ExtractToFunc z destPath defaultExtractFunc entries (w, ()) of
        (res, z', w', u) \<Rightarrow> (res, z', w'))"

section \<open>Packing\<close>

text \<open>The size a listing reports for a file: the length of its bytes; for a written
  archive, the headers and directory records around the bodies.\<close>

fun dsize :: "fdata \<Rightarrow> nat" where
  "dsize (Raw bs) = length bs"
| "dsize (Packed ms) =
     22 + sum_list (map (\<lambda>m. 76 + 2 * length (fst m) + dsize (snd (snd m))) ms)"

definition validName :: "string \<Rightarrow> bool" where
  "validName n = (n \<noteq> [] \<and> n \<noteq> ''.'' \<and> n \<noteq> ''..'' \<and> CHR ''/'' \<notin> set n)"

definition infoOf :: "string \<Rightarrow> node \<Rightarrow> fileinfo" where
  "infoOf n x = \<lparr>fiName = n, fiIsDir = (x = Directory),
                 fiSize = (case x of Directory \<Rightarrow> 0 | Regular d \<Rightarrow> int (dsize d))\<rparr>"

text \<open>\<open>dir.Readdir(0)\<close>: the immediate children, in the order of the file system.\<close>

definition Readdir :: "filesys \<Rightarrow> fpath \<Rightarrow> fileinfo list" where
  "Readdir f k =
     map (\<lambda>(p, x). infoOf (last p) x)
       (filter (\<lambda>(p, x). p \<noteq> [] \<and> butlast p = k \<and> validName (last p)) f)"

text \<open>\<open>zw.CreateHeader\<close> opens a new member; the bytes copied next are its body.\<close>

definition CreateHeader :: "string \<Rightarrow> 32 word \<Rightarrow> zwriter \<Rightarrow> error option \<times> zwriter" where
  "CreateHeader name sz zw =
     (case hdrErr zw name of
        Some e \<Rightarrow> (Some e, zw)
      | None \<Rightarrow> (None, zw\<lparr>members := members zw @ [(name, sz, Raw [])]\<rparr>))"

definition setBody :: "fdata \<Rightarrow> zwriter \<Rightarrow> zwriter" where
  "setBody d zw =
     zw\<lparr>members := (case rev (members zw) of
                       [] \<Rightarrow> []
                     | m # r \<Rightarrow> rev r @ [(fst m, fst (snd m), d)])\<rparr>"

text \<open>
  \<open>packFile\<close>. The packing functions only read the file system, so it is an argument
  \<open>f\<close> of its own and the state is the trace and the writer. \<open>uint32(fi.Size())\<close>
  keeps the low 32 bits.
\<close>

definition packFile :: "filesys \<Rightarrow> string \<Rightarrow> string \<Rightarrow> fileinfo \<Rightarrow> event list \<times> zwriter
    \<Rightarrow> error option \<times> event list \<times> zwriter" where
  "packFile f srcFile recPath fi s =
     (if fiIsDir fi then
        (let r = CreateHeader (recPath @ ''/'') 0 (snd s)
         in (fst r, fst s @ [EvHeader (recPath @ ''/'')], snd r))
      else
        (let r = CreateHeader recPath (word_of_int (fiSize fi)) (snd s);
             tr1 = fst s @ [EvHeader recPath]
         in case fst r of
              Some e \<Rightarrow> (Some e, tr1, snd r)
            | None \<Rightarrow>
                (let k = resolve srcFile; tr2 = tr1 @ [EvOpen k] in
                 case fs_lookup f k of
                   None \<Rightarrow> (Some ENOENT, tr2, snd r)
                 | Some Directory \<Rightarrow> (Some EISDIR, tr2, snd r)
                 | Some (Regular d) \<Rightarrow> (None, tr2, setBody d (snd r)))))"

type_synonym 'v pst = "event list \<times> zwriter \<times> 'v"

definition pvisit :: "'v visitor \<Rightarrow> string \<Rightarrow> fileinfo \<Rightarrow> 'v pst \<Rightarrow> error option \<times> 'v pst" where
  "pvisit fn name fi s =
     (let r = fn (snd (snd s)) name fi
      in (fst r, fst s @ [EvVisit name (fst r)], fst (snd s), snd r))"

definition ppack :: "filesys \<Rightarrow> string \<Rightarrow> string \<Rightarrow> fileinfo \<Rightarrow> 'v pst \<Rightarrow> error option \<times> 'v pst" where
  "ppack f srcFile recPath fi s =
     (let r = packFile f srcFile recPath fi (fst s, fst (snd s))
      in (fst r, fst (snd r), snd (snd r), snd (snd s)))"

text \<open>The number of paths of the file system that lie deeper than \<open>k\<close>: what bounds
  the recursion of \<open>packDir\<close>.\<close>

definition deeper :: "filesys \<Rightarrow> fpath \<Rightarrow> nat" where
  "deeper f k = length (filter (\<lambda>e. length k < length (fst e)) f)"

text \<open>
  \<open>packDir\<close>, with its loop over the listing as \<open>packLoop\<close>, at index \<open>i\<close>.
  \<open>globalFilter\<close> is the exclusion predicate of the package.
\<close>

text \<open>Go's \<open>if err != nil { return err }\<close>: the rest runs only after a nil error.\<close>

definition bindE :: "error option \<times> 's \<Rightarrow> ('s \<Rightarrow> error option \<times> 's) \<Rightarrow> error option \<times> 's" where
  "bindE m k = (case fst m of Some e \<Rightarrow> m | None \<Rightarrow> k (snd m))"

lemma bindE_cong [fundef_cong]:
  "m = m' \<Longrightarrow> (\<And>s. m' = (None, s) \<Longrightarrow> k s = k' s) \<Longrightarrow> bindE m k = bindE m' k'"
  by (cases m') (simp add: bindE_def split: option.splits)

function packDir :: "(string \<Rightarrow> bool) \<Rightarrow> filesys \<Rightarrow> 'v visitor \<Rightarrow> string \<Rightarrow> string \<Rightarrow> 'v pst
    \<Rightarrow> error option \<times> 'v pst"
  and packLoop :: "(string \<Rightarrow> bool) \<Rightarrow> filesys \<Rightarrow> 'v visitor \<Rightarrow> string \<Rightarrow> string \<Rightarrow> nat \<Rightarrow> 'v pst
    \<Rightarrow> error option \<times> 'v pst" where
  "packDir globalFilter f fn srcPath recPath s =
     (case fs_lookup f (resolve srcPath) of
        None \<Rightarrow> (Some ENOENT, fst s @ [EvOpen (resolve srcPath)], snd s)
      | Some (Regular d) \<Rightarrow>
          (Some ENOTDIR, fst s @ [EvOpen (resolve srcPath), EvReaddir (resolve srcPath)], snd s)
      | Some Directory \<Rightarrow>
          packLoop globalFilter f fn srcPath recPath 0
            (fst s @ [EvOpen (resolve srcPath), EvReaddir (resolve srcPath)], snd s))"
| "packLoop globalFilter f fn srcPath recPath i s =
     (if length (Readdir f (resolve srcPath)) \<le> i then (None, s)
      else if globalFilter (fiName (Readdir f (resolve srcPath) ! i))
      then packLoop globalFilter f fn srcPath recPath (Suc i) s
      else
        bindE (pvisit fn (srcPath @ ''/'' @ fiName (Readdir f (resolve srcPath) ! i))
                 (Readdir f (resolve srcPath) ! i) s)
          (\<lambda>s1.
             bindE
               (if fiIsDir (Readdir f (resolve srcPath) ! i) then
                  bindE (ppack f srcPath
                           (Join [recPath, fiName (Readdir f (resolve srcPath) ! i)])
                           (Readdir f (resolve srcPath) ! i) s1)
                    (\<lambda>s2. packDir globalFilter f fn
                       (srcPath @ ''/'' @ fiName (Readdir f (resolve srcPath) ! i))
                       (Join [recPath, fiName (Readdir f (resolve srcPath) ! i)]) s2)
                else
                  ppack f (srcPath @ ''/'' @ fiName (Readdir f (resolve srcPath) ! i))
                    (Join [recPath, fiName (Readdir f (resolve srcPath) ! i)])
                    (Readdir f (resolve srcPath) ! i) s1)
               (\<lambda>s3. packLoop globalFilter f fn srcPath recPath (Suc i) s3)))"
  by pat_completeness auto

text \<open>\<open>packToWriter\<close>. The deferred \<open>zw.Close()\<close> leaves the members as they are.\<close>

definition packToWriter :: "(string \<Rightarrow> bool) \<Rightarrow> string \<Rightarrow> 'v visitor \<Rightarrow> bool
    \<Rightarrow> world \<times> zwriter \<times> 'v \<Rightarrow> error option \<times> world \<times> zwriter \<times> 'v" where
  "packToWriter globalFilter srcPath fn includeDir s =
     (let w = fst s; zw = fst (snd s); v = snd (snd s);
          k = resolve srcPath; tr1 = trace w @ [EvOpen k]
      in case fs_lookup (fs w) k of
           None \<Rightarrow> (Some ENOENT, w\<lparr>trace := tr1\<rparr>, zw, v)
         | Some x \<Rightarrow>
             (let fi = infoOf (Base srcPath) x; basePath = Base srcPath in
              if fiIsDir fi then
                (if includeDir then
                   (case packFile (fs w) srcPath basePath fi (tr1, zw) of
                      (Some e, tr2, zw2) \<Rightarrow> (Some e, w\<lparr>trace := tr2\<rparr>, zw2, v)
                    | (None, tr2, zw2) \<Rightarrow>
                        (case packDir globalFilter (fs w) fn srcPath basePath (tr2, zw2, v) of
                           (r, tr3, zw3, v3) \<Rightarrow> (r, w\<lparr>trace := tr3\<rparr>, zw3, v3)))
                 else
                   (case packDir globalFilter (fs w) fn srcPath [] (tr1, zw, v) of
                      (r, tr3, zw3, v3) \<Rightarrow> (r, w\<lparr>trace := tr3\<rparr>, zw3, v3)))
              else
                (case packFile (fs w) srcPath basePath fi (tr1, zw) of
                   (r, tr2, zw2) \<Rightarrow> (r, w\<lparr>trace := tr2\<rparr>, zw2, v))))"

text \<open>\<open>packTo\<close>: the destination is created (or truncated) first; what the archive
  writer has produced is in the file when it is closed, also after an error.\<close>

definition packTo :: "(string \<Rightarrow> bool) \<Rightarrow> string \<Rightarrow> string \<Rightarrow> 'v visitor \<Rightarrow> bool
    \<Rightarrow> world \<times> 'v \<Rightarrow> error option \<times> world \<times> 'v" where
  "packTo globalFilter srcPath destPath fn includeDir s =
     (case os_Create destPath (fst s) of
        (Inl e, w1) \<Rightarrow> (Some e, w1, snd s)
      | (Inr k, w1) \<Rightarrow>
          (case packToWriter globalFilter srcPath fn includeDir
                  (w1, \<lparr>members = [], hdrErr = (\<lambda>n. None)\<rparr>, snd s) of
             (r, w2, zw, v) \<Rightarrow>
               (r, emit (EvWrite k) (w2\<lparr>fs := fs_put k (Regular (Packed (members zw))) (fs w2)\<rparr>), v)))"

definition PackToFunc :: "(string \<Rightarrow> bool) \<Rightarrow> string \<Rightarrow> string \<Rightarrow> 'v visitor \<Rightarrow> bool list
    \<Rightarrow> world \<times> 'v \<Rightarrow> error option \<times> world \<times> 'v" where
  "PackToFunc globalFilter srcPath destPath fn includeDir s =
     packTo globalFilter srcPath destPath fn (length includeDir > 0 \<and> hd includeDir) s"

definition PackTo :: "(string \<Rightarrow> bool) \<Rightarrow> string \<Rightarrow> string \<Rightarrow> bool list \<Rightarrow> world
    \<Rightarrow> error option \<times> world" where
  "PackTo globalFilter srcPath destPath includeDir w =
     (case PackToFunc globalFilter srcPath destPath defaultPackFunc includeDir (w, ()) of
        (r, w', u) \<Rightarrow> (r, w'))"

section \<open>Flush\<close>

text \<open>
  Modelled from the spec: \<open>copy\<close> is called by \<open>ZipArchive.extractFile\<close> and defined
  elsewhere in the package. The specification has it copy the content found at the
  entry's bound path into the path given second (\<open>from -> to\<close>): the source is opened
  for reading, the destination created, the bytes copied.
\<close>

definition copy :: "string \<Rightarrow> string \<Rightarrow> world \<Rightarrow> error option \<times> world" where
  "copy src dst w =
     (case os_Open src w of
        (Inl e, w1) \<Rightarrow> (Some e, w1)
      | (Inr Directory, w1) \<Rightarrow> (Some EISDIR, w1)
      | (Inr (Regular d), w1) \<Rightarrow>
          (case os_Create dst w1 of
             (Inl e, w2) \<Rightarrow> (Some e, w2)
           | (Inr k, w2) \<Rightarrow> io_Copy (Some k) d None w2))"

text \<open>
  What the package has outside this file: the temporary directory of the host
  (\<open>os.TempDir()\<close>), the exclusion predicate \<open>globalFilter\<close>, and the method
  \<open>ZipArchive.Open\<close> (file name, flags, permission), which may change the session
  and the file system in any way; the call is one more event of the trace.
\<close>

record env =
  TempDir :: string
  globalFilter :: "string \<Rightarrow> bool"
  zipOpen :: "ZipArchive \<Rightarrow> string \<Rightarrow> nat \<Rightarrow> nat \<Rightarrow> filesys \<Rightarrow> error option \<times> ZipArchive \<times> filesys"

definition O_RDWR :: nat where "O_RDWR = 2"

definition O_TRUNC :: nat where "O_TRUNC = 512"

text \<open>
  The method \<open>extractFile\<close> of the session. The entries of \<open>z.files\<close> and those of
  the opened archive are different objects; a nil \<open>ReadCloser\<close> panics.
\<close>

definition ZipArchive_extractFile :: "ZipArchive \<Rightarrow> File \<Rightarrow> world \<Rightarrow> error option \<times> world" where
  "ZipArchive_extractFile z f w =
     (if \<not> isHasWriter z then
        (case ReadCloser z of
           None \<Rightarrow> (Some NilPanic, w)
         | Some zfs \<Rightarrow>
             (case find (\<lambda>zf. Name f = zName zf) zfs of
                Some zf \<Rightarrow> extractFile zf (absPath f) w
              | None \<Rightarrow> copy (absPath f) (Name f) w))
      else copy (absPath f) (Name f) w)"

text \<open>The body of the loop of \<open>Flush\<close> over \<open>z.files\<close>; \<open>f\<close> is a pointer, so the
  new name stays in the entry.\<close>

definition flushBody :: "ZipArchive \<Rightarrow> string \<Rightarrow> File \<Rightarrow> world \<Rightarrow> error option \<times> File \<times> world" where
  "flushBody z tmpPath f w =
     (if HasSuffixSlash (Name f) then
        (None, f, snd (os_MkdirAll (Join [tmpPath, Name f]) w))
      else
        (let f' = f\<lparr>Name := Join [tmpPath, Name f]\<rparr>;
             r = ZipArchive_extractFile z f' w
         in (fst r, f', snd r)))"

fun flushLoop :: "ZipArchive \<Rightarrow> string \<Rightarrow> File list \<Rightarrow> world \<Rightarrow> error option \<times> File list \<times> world" where
  "flushLoop z tmpPath [] w = (None, [], w)"
| "flushLoop z tmpPath (f # r) w =
     (case flushBody z tmpPath f w of
        (Some e, f', w1) \<Rightarrow> (Some e, f' # r, w1)
      | (None, f', w1) \<Rightarrow>
          (case flushLoop z tmpPath r w1 of (res, r', w2) \<Rightarrow> (res, f' # r', w2)))"


definition tmpPathOf :: "env \<Rightarrow> ZipArchive \<Rightarrow> string" where
  "tmpPathOf E z = Join [TempDir E, ''cae'', Base (FileName z)]"

text \<open>\<open>Flush\<close>. The deferred \<open>os.RemoveAll(tmpPath)\<close> is the last step of every
  path after the guard.\<close>

definition Flush :: "env \<Rightarrow> ZipArchive \<Rightarrow> world \<Rightarrow> error option \<times> ZipArchive \<times> world" where
  "Flush E z w =
     (if \<not> isHasChanged z \<or> (ReadCloser z = None \<and> \<not> isHasWriter z) then (None, z, w)
      else
        (let tmpPath = tmpPathOf E z;
             w1 = os_RemoveAll tmpPath w
         in case flushLoop z tmpPath (files z) w1 of
              (Some e, fl, w2) \<Rightarrow> (Some e, z\<lparr>files := fl\<rparr>, os_RemoveAll tmpPath w2)
            | (None, fl, w2) \<Rightarrow>
                (if isHasWriter z then
                   (case packToWriter (globalFilter E) tmpPath defaultPackFunc True
                           (w2, writer z, ()) of
                      (r, w3, zw, u) \<Rightarrow>
                        (r, z\<lparr>files := fl, writer := zw\<rparr>, os_RemoveAll tmpPath w3))
                 else
                   (case PackTo (globalFilter E) tmpPath (FileName z) [] w2 of
                      (Some e, w3) \<Rightarrow> (Some e, z\<lparr>files := fl\<rparr>, os_RemoveAll tmpPath w3)
                    | (None, w3) \<Rightarrow>
                        (case zipOpen E (z\<lparr>files := fl\<rparr>) (FileName z) (O_RDWR + O_TRUNC)
                                (Permission z) (fs w3) of
                           (r, z2, f4) \<Rightarrow>
                             (r, z2, os_RemoveAll tmpPath
                                       (emit (EvOpen (resolve (FileName z))) (w3\<lparr>fs := f4\<rparr>))))))))"

text \<open>\<open>Close\<close>.\<close>

definition Close :: "env \<Rightarrow> ZipArchive \<Rightarrow> world \<Rightarrow> error option \<times> ZipArchive \<times> world" where
  "Close E z w =
     (case Flush E z w of
        (Some e, z', w') \<Rightarrow> (Some e, z', w')
      | (None, z', w') \<Rightarrow> (None, z'\<lparr>ReadCloser := None\<rparr>, w'))"

section \<open>Vocabulary of the properties\<close>








text \<open>
  The path the loop of \<open>Flush\<close> writes the content of an entry to: none for a
  directory entry; for the others the scratch path joined with the name, unless the
  opened archive has an entry of that (joined) name, which is then extracted below the
  bound path of the entry.
\<close>

definition flushDest :: "ZipArchive \<Rightarrow> string \<Rightarrow> File \<Rightarrow> fpath option" where
  "flushDest z tmpPath f =
     (if HasSuffixSlash (Name f) then None
      else if \<not> isHasWriter z then
        (case ReadCloser z of
           None \<Rightarrow> None
         | Some zfs \<Rightarrow>
             (case find (\<lambda>zf. Join [tmpPath, Name f] = zName zf) zfs of
                Some zf \<Rightarrow> Some (resolve (Join [absPath f, zName zf]))
              | None \<Rightarrow> Some (resolve (Join [tmpPath, Name f]))))
      else Some (resolve (Join [tmpPath, Name f])))"


text \<open>
  A host to run \<open>Flush\<close> on: the temporary directory is \<open>/tmp\<close>, the filter
  excludes \<open>.git\<close>, and \<open>Open\<close> succeeds and changes nothing.
\<close>

definition reopen :: "ZipArchive \<Rightarrow> string \<Rightarrow> nat \<Rightarrow> nat \<Rightarrow> filesys
    \<Rightarrow> error option \<times> ZipArchive \<times> filesys" where
  "reopen z name flag perm f = (None, z, f)"

definition hostEnv :: env where
  "hostEnv = \<lparr>TempDir = ''/tmp'', globalFilter = (=) ''.git'', zipOpen = reopen\<rparr>"

text \<open>
  The archive member that \<open>packFile\<close> writes for the node \<open>x\<close> at the path
  \<open>rel\<close> below the packed directory: a directory gives the name with a trailing
  slash, size 0 and no content; a regular file gives the name, the low 32 bits of its length
  and its content.
\<close>

definition memberOf :: "fpath \<Rightarrow> node \<Rightarrow> member" where
  "memberOf rel x =
     (case x of
        Directory \<Rightarrow> (joinc rel @ ''/'', 0, Raw [])
      | Regular d \<Rightarrow> (joinc rel, word_of_int (int (dsize d)), d))"

text \<open>
  Modelled from the documentation of \<open>archive/zip\<close>: \<open>zip.OpenReader\<close> on a file
  that a \<open>zip.Writer\<close> wrote gives one entry for each member, in order, with the name
  and the content written, readable without an error; a path that holds no archive gives
  no reader.
\<close>

definition openEntry :: "member \<Rightarrow> zfile" where
  "openEntry m = \<lparr>zName = fst m, zIsDir = False, zSize = dsize (snd (snd m)),
                  zData = snd (snd m), zOpenErr = None, zReadErr = None\<rparr>"

definition OpenReader :: "string \<Rightarrow> world \<Rightarrow> zfile list option" where
  "OpenReader p w =
     (case fs_lookup (fs w) (resolve p) of
        Some (Regular (Packed ms)) \<Rightarrow> Some (map openEntry ms)
      | _ \<Rightarrow> None)"

text \<open>
  The file system is a tree below the directory \<open>k\<close>: no path is listed twice, and
  every path that lies below \<open>k\<close> is made of proper names and has a directory as its
  parent.
\<close>

definition treeBelow :: "filesys \<Rightarrow> fpath \<Rightarrow> bool" where
  "treeBelow f k =
     (distinct (map fst f)
      \<and> list_all (\<lambda>e. strict_prefix k (fst e) \<longrightarrow>
            list_all validName (drop (length k) (fst e))
            \<and> fs_lookup f (butlast (fst e)) = Some Directory) f)"

text \<open>No name below \<open>k\<close> matches the exclusion predicate \<open>g\<close>.\<close>

definition unfiltered :: "(string \<Rightarrow> bool) \<Rightarrow> filesys \<Rightarrow> fpath \<Rightarrow> bool" where
  "unfiltered g f k = list_all (\<lambda>e. strict_prefix k (fst e) \<longrightarrow> \<not> g (last (fst e))) f"

text \<open>No name below \<open>k\<close> has a backslash in it.\<close>

definition noBackslash :: "fpath \<Rightarrow> bool" where
  "noBackslash rel = list_all (\<lambda>c. CHR 0x5C \<notin> set c) rel"

definition plainBelow :: "filesys \<Rightarrow> fpath \<Rightarrow> bool" where
  "plainBelow f k =
     list_all (\<lambda>e. strict_prefix k (fst e) \<longrightarrow> noBackslash (drop (length k) (fst e))) f"

text \<open>Nothing lies below \<open>k\<close> yet.\<close>

definition nothingBelow :: "filesys \<Rightarrow> fpath \<Rightarrow> bool" where
  "nothingBelow f k = list_all (\<lambda>e. \<not> strict_prefix k (fst e)) f"

text \<open>The members that the nodes at the paths \<open>p\<close> with \<open>Q p\<close> give, named relative
  to \<open>k\<close>.\<close>

definition expected :: "filesys \<Rightarrow> fpath \<Rightarrow> (fpath \<Rightarrow> bool) \<Rightarrow> member set" where
  "expected f k Q = {memberOf (drop (length k) p) x | p x. (p, x) \<in> set f \<and> Q p}"

text \<open>
  The file system \<open>f\<close> holds, below the directory \<open>K\<close>, a part of the tree \<open>T\<close>
  (a map from relative paths to nodes) and nothing else; \<open>f'\<close> keeps every node of
  \<open>f\<close>.
\<close>

definition embeds :: "(fpath \<Rightarrow> node option) \<Rightarrow> fpath \<Rightarrow> filesys \<Rightarrow> bool" where
  "embeds T K f =
     ((\<forall>i\<le>length K. fs_lookup f (take i K) = Some Directory)
      \<and> (\<forall>rel. rel \<noteq> [] \<longrightarrow> fs_lookup f (K @ rel) = None \<or> fs_lookup f (K @ rel) = T rel))"

definition keeps :: "filesys \<Rightarrow> filesys \<Rightarrow> bool" where
  "keeps f f' = (\<forall>p y. fs_lookup f p = Some y \<longrightarrow> fs_lookup f' p = Some y)"

text \<open>
  A session with nothing pending that reads the entries \<open>rc\<close>; the world that
  \<open>ExtractTo\<close> of everything leaves, and the one that \<open>PackTo\<close> without the
  directory itself leaves.
\<close>

definition holding :: "zfile list option \<Rightarrow> ZipArchive" where
  "holding rc =
     \<lparr>ReadCloser = rc, FileName = [], Permission = 0, files = [], isHasChanged = False,
      writer = \<lparr>members = [], hdrErr = Map.empty\<rparr>, isHasWriter = False\<rparr>"

definition extracted :: "ZipArchive \<Rightarrow> string \<Rightarrow> world \<Rightarrow> world" where
  "extracted z destPath w = snd (snd (ExtractTo z destPath [] w))"

definition packed :: "(string \<Rightarrow> bool) \<Rightarrow> string \<Rightarrow> string \<Rightarrow> world \<Rightarrow> world" where
  "packed g srcPath destPath w = snd (PackTo g srcPath destPath [] w)"

section \<open>The recursion of \<open>packDir\<close> ends\<close>

lemma splitc_nonempty: "splitc s \<noteq> []"
  by (induction s) (auto split: list.splits)

lemma splitc_noslash: "CHR ''/'' \<notin> set n \<Longrightarrow> splitc n = [n]"
  by (induction n) auto

lemma splitc_snoc:
  "CHR ''/'' \<notin> set n \<Longrightarrow> splitc (a @ CHR ''/'' # n) = splitc a @ [n]"
proof (induction a)
  case Nil
  then show ?case by (simp add: splitc_noslash)
next
  case (Cons x a)
  then show ?case
    using splitc_nonempty [of a] by (cases "splitc a") auto
qed

lemma resolve_child:
  assumes "validName n"
  shows "resolve (p @ CHR ''/'' # n) = resolve p @ [n]"
proof -
  from assms have ns: "CHR ''/'' \<notin> set n" and pl: "plain n" and nd: "n \<noteq> ''..''"
    by (auto simp: validName_def plain_def)
  have "splitc (p @ CHR ''/'' # n) = splitc p @ [n]"
    using splitc_snoc [OF ns, of p] by simp
  then show ?thesis
    using pl nd by (simp add: resolve_def ccomps_def cstep_def)
qed

lemma Readdir_member:
  assumes "fi \<in> set (Readdir f k)"
  shows "validName (fiName fi) \<and> k @ [fiName fi] \<in> fst ` set f"
proof -
  from assms obtain p x where px: "(p, x) \<in> set f" "p \<noteq> []" "butlast p = k"
      "validName (last p)" "fi = infoOf (last p) x"
    by (auto simp: Readdir_def)
  then have "k @ [last p] = p" by (metis append_butlast_last_id)
  with px show ?thesis by (force simp: infoOf_def)
qed

lemma deeper_less:
  assumes "k @ [n] \<in> fst ` set f"
  shows "deeper f (k @ [n]) < deeper f k"
proof -
  let ?P = "\<lambda>e. length (k @ [n]) < length (fst e)"
  let ?Q = "\<lambda>e::fpath \<times> node. length k < length (fst e)"
  from assms obtain e where e: "e \<in> set f" "fst e = k @ [n]" by auto
  have "filter ?P f = filter ?P (filter ?Q f)"
    by (auto intro: filter_cong)
  moreover have "e \<in> set (filter ?Q f)" "\<not> ?P e" using e by auto
  then have "length (filter ?P (filter ?Q f)) < length (filter ?Q f)"
    by (rule length_filter_less)
  ultimately show ?thesis by (simp add: deeper_def)
qed

lemma child_deeper:
  assumes "i < length (Readdir f (resolve p))"
  shows "deeper f (resolve (p @ CHR ''/'' # fiName (Readdir f (resolve p) ! i)))
           < deeper f (resolve p)"
proof -
  from assms have "Readdir f (resolve p) ! i \<in> set (Readdir f (resolve p))" by simp
  from Readdir_member [OF this] show ?thesis
    by (simp add: resolve_child deeper_less)
qed

termination packDir
proof (relation "measures
    [\<lambda>x. case x of Inl (g, f, fn, src, rc, s) \<Rightarrow> deeper f (resolve src)
                  | Inr (g, f, fn, src, rc, i, s) \<Rightarrow> deeper f (resolve src),
     \<lambda>x. case x of Inl (g, f, fn, src, rc, s) \<Rightarrow> Suc (length (Readdir f (resolve src)))
                  | Inr (g, f, fn, src, rc, i, s) \<Rightarrow> length (Readdir f (resolve src)) - i]",
    goal_cases)
  case 1
  show ?case by simp
next
  case 2
  show ?case by simp
next
  case 3
  then show ?case by auto
next
  case 4
  then show ?case by (simp add: child_deeper)
next
  case 5
  then show ?case by auto
qed

declare packDir.simps [simp del] packLoop.simps [simp del]

section \<open>The trace only grows\<close>

lemma trace_emit: "trace (emit e w) = trace w @ [e]"
  by (simp add: emit_def)

lemma fs_emit: "fs (emit e w) = fs w"
  by (simp add: emit_def)

lemma trace_MkdirAll: "trace (snd (os_MkdirAll p w)) = trace w @ [EvMkdirAll (resolve p)]"
  by (simp add: os_MkdirAll_def Let_def trace_emit)

lemma trace_Create: "trace (snd (os_Create p w)) = trace w @ [EvCreate (resolve p)]"
  by (simp add: os_Create_def Let_def trace_emit split: option.splits node.splits)

lemma trace_RemoveAll: "trace (os_RemoveAll p w) = trace w @ [EvRemoveAll (resolve p)]"
  by (simp add: os_RemoveAll_def trace_emit)

lemma trace_Open: "trace (snd (os_Open p w)) = trace w @ [EvOpen (resolve p)]"
  by (simp add: os_Open_def Let_def trace_emit split: option.splits)

lemma trace_io_Copy: "prefix (trace w) (trace (snd (io_Copy fw d r w)))"
  by (simp add: io_Copy_def trace_emit split: option.splits)

lemma trace_extractFile: "prefix (trace w) (trace (snd (extractFile f d w)))"
proof -
  have a: "prefix (trace w) (trace (snd (os_MkdirAll (Join [d, Dir_of (zName f)]) w)))"
    by (simp add: trace_MkdirAll)
  show ?thesis
  proof (cases "zOpenErr f")
    case (Some e)
    with a show ?thesis by (simp add: extractFile_def Let_def)
  next
    case None
    let ?w1 = "snd (os_MkdirAll (Join [d, Dir_of (zName f)]) w)"
    let ?c = "os_Create (Join [d, zName f]) ?w1"
    have "prefix (trace ?w1) (trace (snd ?c))" by (simp add: trace_Create)
    with a have "prefix (trace w) (trace (snd ?c))" by (rule prefix_order.trans)
    moreover have "prefix (trace (snd ?c)) (trace (snd (extractFile f d w)))"
      using None by (simp add: extractFile_def Let_def trace_io_Copy)
    ultimately show ?thesis by (rule prefix_order.trans)
  qed
qed

lemma trace_copy: "prefix (trace w) (trace (snd (copy src dst w)))"
proof -
  have a: "prefix (trace w) (trace (snd (os_Open src w)))" by (simp add: trace_Open)
  have b: "prefix (trace (snd (os_Open src w))) (trace (snd (os_Create dst (snd (os_Open src w)))))"
    by (simp add: trace_Create)
  have c: "\<And>k d. prefix (trace (snd (os_Create dst (snd (os_Open src w)))))
       (trace (snd (io_Copy (Some k) d None (snd (os_Create dst (snd (os_Open src w)))))))"
    by (rule trace_io_Copy)
  show ?thesis
    using a prefix_order.trans [OF a b] prefix_order.trans [OF prefix_order.trans [OF a b] c]
    by (auto simp: copy_def split: prod.splits sum.splits node.splits)
qed

lemma trace_ZipArchive_extractFile:
  "prefix (trace w) (trace (snd (ZipArchive_extractFile z f w)))"
  by (simp add: ZipArchive_extractFile_def trace_extractFile trace_copy split: option.splits)

lemma trace_flushBody: "prefix (trace w) (trace (snd (snd (flushBody z t f w))))"
  by (simp add: flushBody_def Let_def trace_MkdirAll trace_ZipArchive_extractFile)

lemma trace_flushLoop: "prefix (trace w) (trace (snd (snd (flushLoop z t fl w))))"
proof (induction fl arbitrary: w)
  case Nil
  show ?case by simp
next
  case (Cons f r)
  obtain res f' w1 where b: "flushBody z t f w = (res, f', w1)" by (cases "flushBody z t f w")
  have p1: "prefix (trace w) (trace w1)" using trace_flushBody [of w z t f] b by simp
  show ?case
  proof (cases res)
    case (Some e)
    with b p1 show ?thesis by simp
  next
    case None
    obtain r2 fl2 w2 where l: "flushLoop z t r w1 = (r2, fl2, w2)" by (cases "flushLoop z t r w1")
    have "prefix (trace w1) (trace w2)" using Cons.IH [of w1] l by simp
    with p1 have "prefix (trace w) (trace w2)" by (rule prefix_order.trans)
    with b None l show ?thesis by simp
  qed
qed

lemma trace_packFile: "prefix (fst s) (fst (snd (packFile f src rc fi s)))"
  by (simp add: packFile_def Let_def split: option.splits node.splits)

lemma trace_ppack: "prefix (fst s) (fst (snd (ppack f src rc fi s)))"
  using trace_packFile [of "(fst s, fst (snd s))" f src rc fi] by (simp add: ppack_def Let_def)

lemma trace_pvisit: "fst (snd (pvisit fn n fi s)) = fst s @ [EvVisit n (fst (pvisit fn n fi s))]"
  by (simp add: pvisit_def Let_def)

lemma bindE_rel:
  assumes "R s m"
    and "\<And>s1. m = (None, s1) \<Longrightarrow> R s1 (k s1)"
    and tr: "\<And>a b c. R a (None, b) \<Longrightarrow> R b c \<Longrightarrow> R a c"
  shows "R s (bindE m k)"
proof -
  obtain r s1 where m: "m = (r, s1)" by (cases m)
  show ?thesis
  proof (cases r)
    case None
    with m assms(1) assms(2) [of s1] tr [of s s1 "k s1"] show ?thesis
      by (simp add: bindE_def)
  next
    case (Some e)
    with m assms(1) show ?thesis by (simp add: bindE_def)
  qed
qed

text \<open>
  A relation between the state before and the result that holds of every step of
  \<open>packDir\<close> and composes along a nil error holds of \<open>packDir\<close>.
\<close>

lemma packDir_packLoop_rel:
  fixes R :: "'v pst \<Rightarrow> error option \<times> 'v pst \<Rightarrow> bool"
  assumes rf: "\<And>s. R s (None, s)"
    and tr: "\<And>a b c. R a (None, b) \<Longrightarrow> R b c \<Longrightarrow> R a c"
    and vis: "\<And>n fi s. R s (pvisit fn n fi s)"
    and pck: "\<And>src rc fi s. R s (ppack f src rc fi s)"
    and ev: "\<And>s k. R s (None, fst s @ [EvOpen k, EvReaddir k], snd s)"
    and fl: "\<And>s e k. R s (Some e, fst s @ [EvOpen k], snd s)"
    and fl2: "\<And>s e k. R s (Some e, fst s @ [EvOpen k, EvReaddir k], snd s)"
  shows "R s (packDir g f fn src rc s)"
    and "R s' (packLoop g f fn src rc i s')"
  using vis pck
proof (induction g f fn src rc s and g f fn src rc i s' rule: packDir_packLoop.induct)
  case (1 g f fn src rc s)
  show ?case
  proof (cases "fs_lookup f (resolve src)")
    case None
    then show ?thesis by (simp add: packDir.simps fl)
  next
    case (Some x)
    show ?thesis
    proof (cases x)
      case Directory
      let ?s = "(fst s @ [EvOpen (resolve src), EvReaddir (resolve src)], snd s)"
      have "R ?s (packLoop g f fn src rc 0 ?s)"
        using "1.IH" [OF Some Directory "1.prems"] by simp
      with ev [of s "resolve src"]
      have "R s (packLoop g f fn src rc 0 ?s)" by (rule tr)
      with Some Directory show ?thesis by (simp add: packDir.simps)
    next
      case (Regular d)
      with Some show ?thesis by (simp add: packDir.simps fl2)
    qed
  qed
next
  case (2 g f fn src rc i s)
  let ?fis = "Readdir f (resolve src)"
  show ?case
  proof (cases "length ?fis \<le> i")
    case True
    then show ?thesis by (simp add: packLoop.simps rf)
  next
    case False
    show ?thesis
    proof (cases "g (fiName (?fis ! i))")
      case True
      with False "2.IH"(1) [OF _ _ "2.prems"] show ?thesis
        by (simp add: packLoop.simps [of g f fn src rc i s])
    next
      case nf: False
      let ?fi = "?fis ! i"
      let ?cur = "src @ ''/'' @ fiName ?fi"
      let ?tmp = "Join [rc, fiName ?fi]"
      let ?one = "\<lambda>s1. if fiIsDir ?fi
          then bindE (ppack f src ?tmp ?fi s1) (\<lambda>s2. packDir g f fn ?cur ?tmp s2)
          else ppack f ?cur ?tmp ?fi s1"
      have inner: "R s1 (?one s1)" if v: "pvisit fn ?cur ?fi s = (None, s1)" for s1
      proof (cases "fiIsDir ?fi")
        case True
        have "R s1 (bindE (ppack f src ?tmp ?fi s1) (\<lambda>s2. packDir g f fn ?cur ?tmp s2))"
        proof (rule bindE_rel [where R = R, OF _ _ tr])
          show "R s1 (ppack f src ?tmp ?fi s1)" by (rule "2.prems"(2))
        next
          fix s2 assume "ppack f src ?tmp ?fi s1 = (None, s2)"
          with "2.IH"(2) [OF False nf v True _ "2.prems"]
          show "R s2 (packDir g f fn ?cur ?tmp s2)" by simp
        qed
        with True show ?thesis by simp
      next
        case False
        then show ?thesis by (simp add: "2.prems"(2))
      qed
      have "R s (bindE (pvisit fn ?cur ?fi s)
             (\<lambda>s1. bindE (?one s1) (\<lambda>s3. packLoop g f fn src rc (Suc i) s3)))"
      proof (rule bindE_rel [where R = R, OF _ _ tr])
        show "R s (pvisit fn ?cur ?fi s)" by (rule "2.prems"(1))
      next
        fix s1 assume v: "pvisit fn ?cur ?fi s = (None, s1)"
        show "R s1 (bindE (?one s1) (\<lambda>s3. packLoop g f fn src rc (Suc i) s3))"
        proof (rule bindE_rel [where R = R, OF _ _ tr])
          show "R s1 (?one s1)" by (rule inner [OF v])
        next
          fix s3 assume "?one s1 = (None, s3)"
          from "2.IH"(3) [OF False nf v this "2.prems"]
          show "R s3 (packLoop g f fn src rc (Suc i) s3)" .
        qed
      qed
      with False nf show ?thesis
        by (subst packLoop.simps) simp
    qed
  qed
qed

lemma trace_packDir: "prefix (fst s) (fst (snd (packDir g f fn src rc s)))"
  by (rule packDir_packLoop_rel(1) [where R = "\<lambda>s m. prefix (fst s) (fst (snd m))"])
    (auto simp: trace_pvisit trace_ppack intro: prefix_order.trans)

lemma packFile_prefixD: "packFile f src rc fi (tr, zw) = (r, tr2, zw2) \<Longrightarrow> prefix tr tr2"
  using trace_packFile [of "(tr, zw)" f src rc fi] by simp

lemma packDir_prefixD: "packDir g f fn src rc (tr, zw, v) = (r, tr3, zw3, v3) \<Longrightarrow> prefix tr tr3"
  using trace_packDir [of "(tr, zw, v)" g f fn src rc] by simp

lemma trace_packToWriter:
  "prefix (trace (fst s)) (trace (fst (snd (packToWriter g src fn inc s))))"
proof -
  obtain w zw v where s: "s = (w, zw, v)" by (cases s) auto
  let ?tr1 = "trace w @ [EvOpen (resolve src)]"
  have p1: "prefix (trace w) tr" if "prefix ?tr1 tr" for tr
    using that append_prefixD by blast
  show ?thesis
  proof (cases "fs_lookup (fs w) (resolve src)")
    case None
    with s show ?thesis by (simp add: packToWriter_def Let_def)
  next
    case (Some x)
    let ?fi = "infoOf (Base src) x"
    show ?thesis
    proof (cases "fiIsDir ?fi")
      case False
      obtain r tr2 zw2 where pf: "packFile (fs w) src (Base src) ?fi (?tr1, zw) = (r, tr2, zw2)"
        by (cases "packFile (fs w) src (Base src) ?fi (?tr1, zw)")
      from packFile_prefixD [OF pf] have "prefix (trace w) tr2" by (rule p1)
      with s Some False pf show ?thesis by (simp add: packToWriter_def Let_def)
    next
      case True
      show ?thesis
      proof (cases inc)
        case False
        obtain r tr3 zw3 v3 where pd: "packDir g (fs w) fn src [] (?tr1, zw, v) = (r, tr3, zw3, v3)"
          by (cases "packDir g (fs w) fn src [] (?tr1, zw, v)")
        from packDir_prefixD [OF pd] have "prefix (trace w) tr3" by (rule p1)
        with s Some True False pd show ?thesis by (simp add: packToWriter_def Let_def)
      next
        case inc: True
        obtain r tr2 zw2 where pf: "packFile (fs w) src (Base src) ?fi (?tr1, zw) = (r, tr2, zw2)"
          by (cases "packFile (fs w) src (Base src) ?fi (?tr1, zw)")
        from packFile_prefixD [OF pf] have q: "prefix ?tr1 tr2" .
        show ?thesis
        proof (cases r)
          case (Some e)
          with s \<open>fs_lookup (fs w) (resolve src) = Some x\<close> True inc pf p1 [OF q] show ?thesis
            by (simp add: packToWriter_def Let_def)
        next
          case None
          obtain r3 tr3 zw3 v3 where pd:
            "packDir g (fs w) fn src (Base src) (tr2, zw2, v) = (r3, tr3, zw3, v3)"
            by (cases "packDir g (fs w) fn src (Base src) (tr2, zw2, v)")
          from q packDir_prefixD [OF pd] have "prefix ?tr1 tr3" by (rule prefix_order.trans)
          then have "prefix (trace w) tr3" by (rule p1)
          with s \<open>fs_lookup (fs w) (resolve src) = Some x\<close> True inc pf None pd show ?thesis
            by (simp add: packToWriter_def Let_def)
        qed
      qed
    qed
  qed
qed

lemma trace_packTo: "prefix (trace (fst s)) (trace (fst (snd (packTo g src dst fn inc s))))"
proof -
  have c: "prefix (trace (fst s)) (trace (snd (os_Create dst (fst s))))"
    by (simp add: trace_Create)
  show ?thesis
  proof (cases "os_Create dst (fst s)")
    case (Pair r w1)
    show ?thesis
    proof (cases r)
      case (Inl e)
      with Pair c show ?thesis by (simp add: packTo_def)
    next
      case (Inr k)
      let ?p = "packToWriter g src fn inc (w1, \<lparr>members = [], hdrErr = (\<lambda>n. None)\<rparr>, snd s)"
      have "prefix (trace w1) (trace (fst (snd ?p)))"
        using trace_packToWriter [of "(w1, \<lparr>members = [], hdrErr = (\<lambda>n. None)\<rparr>, snd s)" g src fn inc]
        by simp
      with c Pair have "prefix (trace (fst s)) (trace (fst (snd ?p)))"
        by (auto intro: prefix_order.trans)
      with Pair Inr show ?thesis
        by (auto simp: packTo_def trace_emit split: prod.splits intro: prefix_order.trans)
    qed
  qed
qed

lemma trace_PackTo: "prefix (trace w) (trace (snd (PackTo g src dst inc w)))"
  using trace_packTo [of "(w, ())" g src dst defaultPackFunc "length inc > 0 \<and> hd inc"]
  by (auto simp: PackTo_def PackToFunc_def split: prod.splits)

lemma fs_RemoveAll:
  "filter (\<lambda>kv. prefix (resolve p) (fst kv)) (fs (os_RemoveAll p w)) = []"
  by (auto simp: os_RemoveAll_def fs_emit filter_empty_conv)

lemma trace_grows: "prefix (t @ [e]) t' \<Longrightarrow> t' @ es \<noteq> t"
  by (auto simp: prefix_def)

lemma Flush_past_guard:
  assumes "\<not> (\<not> isHasChanged z \<or> (ReadCloser z = None \<and> \<not> isHasWriter z))"
  shows "\<exists>w'. snd (snd (Flush E z w)) = os_RemoveAll (tmpPathOf E z) w'"
proof -
  define G where "G = (\<not> isHasChanged z \<or> (ReadCloser z = None \<and> \<not> isHasWriter z))"
  have "\<not> G" using assms by (simp add: G_def)
  then show ?thesis
    unfolding Flush_def G_def [symmetric]
    by (auto simp: Let_def split: prod.splits option.splits)
qed

section \<open>The names \<open>Flush\<close> leaves in the entries\<close>




section \<open>Rejections end the traversal\<close>



























section \<open>Extraction of a selection\<close>





lemma os_Create_handle: "fst (os_Create p w) = Inr k \<Longrightarrow> k = resolve p"
  by (auto simp: os_Create_def Let_def split: if_splits option.splits node.splits)





section \<open>What the materialisation leaves alone\<close>

lemma map_of_fs_put: "map_of (fs_put k v f) = (map_of f)(k \<mapsto> v)"
  by (induction f) auto

lemma lookup_fs_put: "a \<noteq> k \<Longrightarrow> fs_lookup (fs_put k v f) a = fs_lookup f a"
  by (simp add: fs_lookup_def map_of_fs_put)

lemma keep_mkdirs:
  "fs_lookup f a = Some (Regular d) \<Longrightarrow> fs_lookup (snd (mkdirs done cs f)) a = Some (Regular d)"
proof (induction cs arbitrary: "done" f)
  case Nil
  then show ?case by simp
next
  case (Cons c cs)
  show ?case
  proof (cases "fs_lookup f (done @ [c])")
    case None
    with Cons.prems have "a \<noteq> done @ [c]" by auto
    then have "fs_lookup (fs_put (done @ [c]) Directory f) a = Some (Regular d)"
      using Cons.prems by (simp add: lookup_fs_put)
    from Cons.IH [OF this] None show ?thesis by (simp add: Let_def)
  next
    case (Some x)
    with Cons.IH [OF Cons.prems] Cons.prems show ?thesis
      by (cases x) (simp_all add: Let_def)
  qed
qed

lemma keep_MkdirAll:
  "fs_lookup (fs w) a = Some (Regular d) \<Longrightarrow>
   fs_lookup (fs (snd (os_MkdirAll p w))) a = Some (Regular d)"
  by (simp add: os_MkdirAll_def Let_def fs_emit keep_mkdirs)

lemma keep_Create:
  "a \<noteq> resolve p \<Longrightarrow> fs_lookup (fs (snd (os_Create p w))) a = fs_lookup (fs w) a"
  by (simp add: os_Create_def Let_def fs_emit lookup_fs_put split: option.splits node.splits)

lemma keep_io_Copy:
  "fw \<noteq> Some a \<Longrightarrow> fs_lookup (fs (snd (io_Copy fw dt r w))) a = fs_lookup (fs w) a"
  by (cases fw) (auto simp: io_Copy_def fs_emit lookup_fs_put)

lemma keep_Open: "fs (snd (os_Open p w)) = fs w"
  by (simp add: os_Open_def Let_def fs_emit split: option.splits)

lemma keep_RemoveAll:
  "\<not> prefix (resolve p) a \<Longrightarrow> fs_lookup (fs (os_RemoveAll p w)) a = fs_lookup (fs w) a"
proof -
  assume n: "\<not> prefix (resolve p) a"
  have "map_of (filter (\<lambda>(k, v). \<not> prefix (resolve p) k) f) a = map_of f a" for f :: filesys
    using n by (induction f) auto
  then show ?thesis by (simp add: os_RemoveAll_def fs_emit fs_lookup_def)
qed

lemma keep_extractFile:
  assumes "fs_lookup (fs w) a = Some (Regular d)" and "a \<noteq> resolve (Join [dst, zName zf])"
  shows "fs_lookup (fs (snd (extractFile zf dst w))) a = Some (Regular d)"
proof -
  let ?w1 = "snd (os_MkdirAll (Join [dst, Dir_of (zName zf)]) w)"
  let ?c = "os_Create (Join [dst, zName zf]) ?w1"
  have 1: "fs_lookup (fs ?w1) a = Some (Regular d)" using assms(1) by (rule keep_MkdirAll)
  have 2: "fs_lookup (fs (snd ?c)) a = Some (Regular d)" using 1 assms(2) by (simp add: keep_Create)
  show ?thesis
  proof (cases "zOpenErr zf")
    case (Some e)
    with 1 show ?thesis by (simp add: extractFile_def Let_def)
  next
    case None
    let ?fw = "case fst ?c of Inl e \<Rightarrow> None | Inr k \<Rightarrow> Some k"
    have "?fw \<noteq> Some a"
      using assms(2) os_Create_handle [of "Join [dst, zName zf]" ?w1] by (auto split: sum.splits)
    from keep_io_Copy [OF this] 2 None show ?thesis by (simp add: extractFile_def Let_def)
  qed
qed

lemma keep_copy:
  assumes "fs_lookup (fs w) a = Some (Regular d)" and "a \<noteq> resolve dst"
  shows "fs_lookup (fs (snd (copy src dst w))) a = Some (Regular d)"
proof -
  let ?w1 = "snd (os_Open src w)"
  let ?c = "os_Create dst ?w1"
  have 1: "fs_lookup (fs ?w1) a = Some (Regular d)" using assms(1) by (simp add: keep_Open)
  have 2: "fs_lookup (fs (snd ?c)) a = Some (Regular d)" using 1 assms(2) by (simp add: keep_Create)
  have 3: "fs_lookup (fs (snd (io_Copy (Some k) dt None (snd ?c)))) a = Some (Regular d)"
    if "fst ?c = Inr k" for k dt
  proof -
    from os_Create_handle [OF that] assms(2) have "Some k \<noteq> Some a" by simp
    from keep_io_Copy [OF this] 2 show ?thesis by simp
  qed
  obtain r1 w1 where o: "os_Open src w = (r1, w1)" by (cases "os_Open src w")
  obtain r2 w2 where c: "os_Create dst w1 = (r2, w2)" by (cases "os_Create dst w1")
  show ?thesis
    using o c 1 2 3
    by (auto simp: copy_def split: sum.splits node.splits)
qed

lemma find_name: "find (\<lambda>zf. n = zName zf) zfs = Some zf \<Longrightarrow> zName zf = n"
  by (auto simp: find_Some_iff)

lemma keep_flushBody:
  assumes "fs_lookup (fs w) a = Some (Regular d)" and "flushDest z t f \<noteq> Some a"
  shows "fs_lookup (fs (snd (snd (flushBody z t f w)))) a = Some (Regular d)"
proof (cases "HasSuffixSlash (Name f)")
  case True
  with assms(1) show ?thesis by (simp add: flushBody_def keep_MkdirAll)
next
  case False
  let ?n = "Join [t, Name f]"
  let ?f = "f\<lparr>Name := ?n\<rparr>"
  have "fs_lookup (fs (snd (ZipArchive_extractFile z ?f w))) a = Some (Regular d)"
  proof (cases "isHasWriter z")
    case True
    with assms False show ?thesis
      by (simp add: ZipArchive_extractFile_def flushDest_def keep_copy)
  next
    case nw: False
    show ?thesis
    proof (cases "ReadCloser z")
      case None
      with nw assms(1) show ?thesis by (simp add: ZipArchive_extractFile_def)
    next
      case (Some zfs)
      show ?thesis
      proof (cases "find (\<lambda>zf. ?n = zName zf) zfs")
        case None
        with nw Some assms False show ?thesis
          by (simp add: ZipArchive_extractFile_def flushDest_def keep_copy)
      next
        case fnd: (Some zf)
        with nw Some assms False have "a \<noteq> resolve (Join [absPath f, zName zf])"
          by (auto simp: flushDest_def)
        from keep_extractFile [OF assms(1) this] nw Some fnd show ?thesis
          by (simp add: ZipArchive_extractFile_def)
      qed
    qed
  qed
  with False show ?thesis by (simp add: flushBody_def Let_def)
qed

lemma keep_flushLoop:
  assumes "fs_lookup (fs w) a = Some (Regular d)" and "\<forall>f\<in>set fl. flushDest z t f \<noteq> Some a"
  shows "fs_lookup (fs (snd (snd (flushLoop z t fl w)))) a = Some (Regular d)"
  using assms
proof (induction fl arbitrary: w)
  case Nil
  then show ?case by simp
next
  case (Cons f r)
  obtain res f' w1 where b: "flushBody z t f w = (res, f', w1)" by (cases "flushBody z t f w")
  have 1: "fs_lookup (fs w1) a = Some (Regular d)"
    using keep_flushBody [OF Cons.prems(1), of z t f] Cons.prems(2) b by simp
  show ?case
  proof (cases res)
    case (Some e)
    with b 1 show ?thesis by simp
  next
    case None
    with b Cons.IH [OF 1] Cons.prems(2) show ?thesis by (auto split: prod.splits)
  qed
qed

section \<open>What \<open>packFile\<close> writes\<close>


lemma resolve_simps:
  "resolve s = rev (fold (cstep True) (filter plain (splitc s)) [])"
  by (simp add: resolve_def ccomps_def)




section \<open>Errors of \<open>extractFile\<close>\<close>

text \<open>
  C5 at an entry \<open>a/b\<close> extracted where \<open>a\<close> is a regular file already:
  \<open>os.Create\<close> fails with \<open>ENOTDIR\<close>, and \<open>extractFile\<close> does not return that
  error but the one of the copy into the nil file.
\<close>

theorem extractFile_create_error:
  "fst (os_Create (Join [''/out'', ''a/b''])
         \<lparr>fs = [([''out''], Directory), ([''out'', ''a''], Regular (Raw []))], trace = []\<rparr>)
     = Inl ENOTDIR
   \<and> fst (extractFile \<lparr>zName = ''a/b'', zIsDir = False, zSize = 1, zData = Raw [7],
                        zOpenErr = None, zReadErr = None\<rparr> ''/out''
         \<lparr>fs = [([''out''], Directory), ([''out'', ''a''], Regular (Raw []))], trace = []\<rparr>)
     = Some ErrInvalid"
  by code_simp

section \<open>What \<open>Flush\<close> writes to a writer\<close>

text \<open>
  C1 at a session bound to a writer, with the entries \<open>sub/\<close> and \<open>sub/b.txt\<close>:
  \<open>Flush\<close> calls \<open>packToWriter\<close> with \<open>includeDir\<close> true, so the scratch
  directory \<open>/tmp/cae\<close> is itself a member and every name starts with \<open>cae/\<close>.
\<close>

theorem Flush_writer_members:
  "(case Flush hostEnv
      \<lparr>ReadCloser = None, FileName = [], Permission = 0,
        files = [\<lparr>Name = ''sub/'', absPath = []\<rparr>,
                 \<lparr>Name = ''sub/b.txt'', absPath = ''/src/b.txt''\<rparr>],
        isHasChanged = True, writer = \<lparr>members = [], hdrErr = Map.empty\<rparr>,
        isHasWriter = True\<rparr>
      \<lparr>fs = [([''src''], Directory), ([''src'', ''b.txt''], Regular (Raw [1, 2, 3]))],
        trace = []\<rparr>
    of (r, z, w) \<Rightarrow> (r, members (writer z)))
   = (None, [(''cae/'', 0, Raw []), (''cae/sub/'', 0, Raw []),
             (''cae/sub/b.txt'', 3, Raw [1, 2, 3])])"
  by code_simp

theorem Flush_writer_members_witness:
  "map fst (snd (case Flush hostEnv
      \<lparr>ReadCloser = None, FileName = [], Permission = 0,
        files = [\<lparr>Name = ''sub/'', absPath = []\<rparr>,
                 \<lparr>Name = ''sub/b.txt'', absPath = ''/src/b.txt''\<rparr>],
        isHasChanged = True, writer = \<lparr>members = [], hdrErr = Map.empty\<rparr>,
        isHasWriter = True\<rparr>
      \<lparr>fs = [([''src''], Directory), ([''src'', ''b.txt''], Regular (Raw [1, 2, 3]))],
        trace = []\<rparr>
    of (r, z, w) \<Rightarrow> (r, members (writer z))))
   = [''cae/'', ''cae/sub/'', ''cae/sub/b.txt'']"
  using Flush_writer_members by simp

section \<open>When \<open>Flush\<close> does nothing, and what it leaves\<close>

text \<open>
  C2, as the code has it. \<open>Flush\<close> returns nil without any action on the file system
  exactly when its guard holds: there are no pending changes, or the session has
  neither an opened archive nor a writer. Past the guard the first action is the
  removal of the scratch directory.
\<close>

theorem Flush_noop_iff:
  "(fst (Flush E z w) = None \<and> trace (snd (snd (Flush E z w))) = trace w)
     = (\<not> isHasChanged z \<or> (ReadCloser z = None \<and> \<not> isHasWriter z))"
proof (cases "\<not> isHasChanged z \<or> (ReadCloser z = None \<and> \<not> isHasWriter z)")
  case True
  then show ?thesis by (simp add: Flush_def)
next
  case False
  let ?t = "tmpPathOf E z"
  let ?w1 = "os_RemoveAll ?t w"
  obtain res fl w2 where l: "flushLoop z ?t (files z) ?w1 = (res, fl, w2)"
    by (cases "flushLoop z ?t (files z) ?w1")
  have p2: "prefix (trace w @ [EvRemoveAll (resolve ?t)]) (trace w2)"
    using trace_flushLoop [of ?w1 z ?t "files z"] l by (simp add: trace_RemoveAll)
  have "trace (snd (snd (Flush E z w))) \<noteq> trace w"
  proof (cases res)
    case (Some e)
    with False l p2 show ?thesis
      by (simp add: Flush_def Let_def trace_RemoveAll trace_grows)
  next
    case None
    show ?thesis
    proof (cases "isHasWriter z")
      case True
      obtain r w3 zw u where pk: "packToWriter (globalFilter E) ?t defaultPackFunc True
          (w2, writer z, ()) = (r, w3, zw, u)"
        by (cases "packToWriter (globalFilter E) ?t defaultPackFunc True (w2, writer z, ())")
      have "prefix (trace w2) (trace w3)"
        using trace_packToWriter [of "(w2, writer z, ())" "globalFilter E" ?t defaultPackFunc True] pk
        by simp
      with p2 have "prefix (trace w @ [EvRemoveAll (resolve ?t)]) (trace w3)"
        by (rule prefix_order.trans)
      with False l None True pk show ?thesis
        by (simp add: Flush_def Let_def trace_RemoveAll trace_grows)
    next
      case nw: False
      obtain r w3 where pk: "PackTo (globalFilter E) ?t (FileName z) [] w2 = (r, w3)"
        by (cases "PackTo (globalFilter E) ?t (FileName z) [] w2")
      have "prefix (trace w2) (trace w3)"
        using trace_PackTo [of w2 "globalFilter E" ?t "FileName z" "[]"] pk by simp
      with p2 have p3: "prefix (trace w @ [EvRemoveAll (resolve ?t)]) (trace w3)"
        by (rule prefix_order.trans)
      show ?thesis
      proof (cases r)
        case (Some e)
        with False l None nw pk p3 show ?thesis
          by (simp add: Flush_def Let_def trace_RemoveAll trace_grows)
      next
        case rn: None
        with False l None nw pk p3 show ?thesis
          by (simp add: Flush_def Let_def trace_RemoveAll trace_emit trace_grows split: prod.splits)
      qed
    qed
  qed
  with False show ?thesis by simp
qed

theorem Flush_noop_iff_witness:
  "fst (Flush hostEnv
      \<lparr>ReadCloser = Some [], FileName = ''/x.zip'', Permission = 0, files = [],
        isHasChanged = False, writer = \<lparr>members = [], hdrErr = Map.empty\<rparr>,
        isHasWriter = False\<rparr> \<lparr>fs = [], trace = []\<rparr>) = None
   \<and> trace (snd (snd (Flush hostEnv
      \<lparr>ReadCloser = Some [], FileName = ''/x.zip'', Permission = 0, files = [],
        isHasChanged = False, writer = \<lparr>members = [], hdrErr = Map.empty\<rparr>,
        isHasWriter = False\<rparr> \<lparr>fs = [], trace = []\<rparr>))) = []
   \<and> \<not> (fst (Flush hostEnv
      \<lparr>ReadCloser = Some [], FileName = ''/x.zip'', Permission = 0, files = [],
        isHasChanged = True, writer = \<lparr>members = [], hdrErr = Map.empty\<rparr>,
        isHasWriter = False\<rparr> \<lparr>fs = [], trace = []\<rparr>) = None
     \<and> trace (snd (snd (Flush hostEnv
      \<lparr>ReadCloser = Some [], FileName = ''/x.zip'', Permission = 0, files = [],
        isHasChanged = True, writer = \<lparr>members = [], hdrErr = Map.empty\<rparr>,
        isHasWriter = False\<rparr> \<lparr>fs = [], trace = []\<rparr>))) = [])"
  using Flush_noop_iff [of hostEnv
      "\<lparr>ReadCloser = Some [], FileName = ''/x.zip'', Permission = 0, files = [],
        isHasChanged = False, writer = \<lparr>members = [], hdrErr = Map.empty\<rparr>,
        isHasWriter = False\<rparr>" "\<lparr>fs = [], trace = []\<rparr>"]
    Flush_noop_iff [of hostEnv
      "\<lparr>ReadCloser = Some [], FileName = ''/x.zip'', Permission = 0, files = [],
        isHasChanged = True, writer = \<lparr>members = [], hdrErr = Map.empty\<rparr>,
        isHasWriter = False\<rparr>" "\<lparr>fs = [], trace = []\<rparr>"]
  by simp

text \<open>
  C2 as stated fails twice. With no pending changes \<open>Flush\<close> does nothing although
  the session has an opened archive; and with pending changes, no opened archive, no
  writer and no file at the backing path, \<open>Flush\<close> returns nil, not an error.
\<close>

theorem Flush_noop_counterexample:
  "fst (Flush hostEnv
      \<lparr>ReadCloser = Some [], FileName = ''/x.zip'', Permission = 0, files = [],
        isHasChanged = False, writer = \<lparr>members = [], hdrErr = Map.empty\<rparr>,
        isHasWriter = False\<rparr> \<lparr>fs = [], trace = []\<rparr>) = None
   \<and> trace (snd (snd (Flush hostEnv
      \<lparr>ReadCloser = Some [], FileName = ''/x.zip'', Permission = 0, files = [],
        isHasChanged = False, writer = \<lparr>members = [], hdrErr = Map.empty\<rparr>,
        isHasWriter = False\<rparr> \<lparr>fs = [], trace = []\<rparr>))) = []
   \<and> fs_lookup [] (resolve ''/missing.zip'') = None
   \<and> fst (Flush hostEnv
      \<lparr>ReadCloser = None, FileName = ''/missing.zip'', Permission = 0,
        files = [\<lparr>Name = ''a.txt'', absPath = ''/src/a.txt''\<rparr>],
        isHasChanged = True, writer = \<lparr>members = [], hdrErr = Map.empty\<rparr>,
        isHasWriter = False\<rparr> \<lparr>fs = [], trace = []\<rparr>) = None"
  by (simp add: Flush_def fs_lookup_def resolve_simps plain_def cstep_def)

text \<open>
  C4. Past the guard, whatever \<open>Flush\<close> returns, its last action is the removal of
  the scratch directory, and no path at or below it is left in the file system.
  (\<open>os.RemoveAll\<close> itself is taken to succeed.)
\<close>

theorem Flush_removes_scratch:
  "\<not> (\<not> isHasChanged z \<or> (ReadCloser z = None \<and> \<not> isHasWriter z)) \<Longrightarrow>
   filter (\<lambda>kv. prefix (resolve (tmpPathOf E z)) (fst kv)) (fs (snd (snd (Flush E z w)))) = []
   \<and> last (trace (snd (snd (Flush E z w)))) = EvRemoveAll (resolve (tmpPathOf E z))"
proof -
  assume "\<not> (\<not> isHasChanged z \<or> (ReadCloser z = None \<and> \<not> isHasWriter z))"
  from Flush_past_guard [OF this, of E w] obtain w' where
    "snd (snd (Flush E z w)) = os_RemoveAll (tmpPathOf E z) w'" ..
  then show ?thesis by (simp add: fs_RemoveAll trace_RemoveAll)
qed

theorem Flush_removes_scratch_witness:
  "filter (\<lambda>kv. prefix [''tmp'', ''cae''] (fst kv))
     (fs (snd (snd (Flush hostEnv
        \<lparr>ReadCloser = None, FileName = [], Permission = 0,
          files = [\<lparr>Name = ''sub/'', absPath = []\<rparr>,
                   \<lparr>Name = ''sub/b.txt'', absPath = ''/missing''\<rparr>],
          isHasChanged = True, writer = \<lparr>members = [], hdrErr = Map.empty\<rparr>,
          isHasWriter = True\<rparr>
        \<lparr>fs = [([''tmp''], Directory), ([''tmp'', ''cae''], Directory),
                ([''tmp'', ''cae'', ''old''], Regular (Raw [9]))], trace = []\<rparr>)))) = []
   \<and> fst (Flush hostEnv
        \<lparr>ReadCloser = None, FileName = [], Permission = 0,
          files = [\<lparr>Name = ''sub/'', absPath = []\<rparr>,
                   \<lparr>Name = ''sub/b.txt'', absPath = ''/missing''\<rparr>],
          isHasChanged = True, writer = \<lparr>members = [], hdrErr = Map.empty\<rparr>,
          isHasWriter = True\<rparr>
        \<lparr>fs = [([''tmp''], Directory), ([''tmp'', ''cae''], Directory),
                ([''tmp'', ''cae'', ''old''], Regular (Raw [9]))], trace = []\<rparr>) = Some ENOENT"
proof -
  let ?z = "\<lparr>ReadCloser = None, FileName = [], Permission = 0,
          files = [\<lparr>Name = ''sub/'', absPath = []\<rparr>,
                   \<lparr>Name = ''sub/b.txt'', absPath = ''/missing''\<rparr>],
          isHasChanged = True, writer = \<lparr>members = [], hdrErr = Map.empty\<rparr>,
          isHasWriter = True\<rparr>"
  have t: "resolve (tmpPathOf hostEnv ?z) = [''tmp'', ''cae'']" by code_simp
  have e: "fst (Flush hostEnv ?z
        \<lparr>fs = [([''tmp''], Directory), ([''tmp'', ''cae''], Directory),
                ([''tmp'', ''cae'', ''old''], Regular (Raw [9]))], trace = []\<rparr>) = Some ENOENT"
    by code_simp
  show ?thesis
    using Flush_removes_scratch [of ?z hostEnv
        "\<lparr>fs = [([''tmp''], Directory), ([''tmp'', ''cae''], Directory),
                ([''tmp'', ''cae'', ''old''], Regular (Raw [9]))], trace = []\<rparr>"] t e
    by simp
qed

section \<open>\<open>Flush\<close> renames the entries of the session\<close>




section \<open>The visitor comes first, and its error ends the traversal\<close>



section \<open>Only the selection is extracted\<close>



section \<open>A failed materialisation and the archive file\<close>

text \<open>
  C3, as the code has it. Take a session bound to a path, with pending changes and an
  opened archive, whose archive file exists, does not lie at or below the scratch
  directory, and is not the path that the materialisation of one of the entries writes
  to. If the loop of \<open>Flush\<close> fails at an entry, \<open>Flush\<close> returns that error and
  the archive file has the content it had.
\<close>

theorem Flush_failure_keeps_archive:
  assumes "isHasChanged z" and "ReadCloser z \<noteq> None" and "\<not> isHasWriter z"
    and "fs_lookup (fs w) (resolve (FileName z)) = Some (Regular d)"
    and "\<not> prefix (resolve (tmpPathOf E z)) (resolve (FileName z))"
    and "\<forall>f\<in>set (files z). flushDest z (tmpPathOf E z) f \<noteq> Some (resolve (FileName z))"
    and "fst (flushLoop z (tmpPathOf E z) (files z) (os_RemoveAll (tmpPathOf E z) w)) = Some e"
  shows "fst (Flush E z w) = Some e
       \<and> fs_lookup (fs (snd (snd (Flush E z w)))) (resolve (FileName z)) = Some (Regular d)"
proof -
  let ?t = "tmpPathOf E z"
  let ?a = "resolve (FileName z)"
  let ?w1 = "os_RemoveAll ?t w"
  obtain res fl w2 where l: "flushLoop z ?t (files z) ?w1 = (res, fl, w2)"
    by (cases "flushLoop z ?t (files z) ?w1")
  with assms(7) have res: "res = Some e" by simp
  have 1: "fs_lookup (fs ?w1) ?a = Some (Regular d)"
    using assms(4,5) by (simp add: keep_RemoveAll)
  have 2: "fs_lookup (fs w2) ?a = Some (Regular d)"
    using keep_flushLoop [OF 1 assms(6)] l by simp
  have 3: "fs_lookup (fs (os_RemoveAll ?t w2)) ?a = Some (Regular d)"
    using 2 assms(5) by (simp add: keep_RemoveAll)
  have "Flush E z w = (Some e, z\<lparr>files := fl\<rparr>, os_RemoveAll ?t w2)"
    using assms(1,2,3) l res by (simp add: Flush_def Let_def)
  with 3 show ?thesis by simp
qed

theorem Flush_failure_keeps_archive_witness:
  "fst (Flush hostEnv
      \<lparr>ReadCloser = Some [], FileName = ''/home/x.zip'', Permission = 0,
        files = [\<lparr>Name = ''a.txt'', absPath = ''/missing''\<rparr>],
        isHasChanged = True, writer = \<lparr>members = [], hdrErr = Map.empty\<rparr>,
        isHasWriter = False\<rparr>
      \<lparr>fs = [([''home''], Directory), ([''home'', ''x.zip''], Regular (Packed []))],
        trace = []\<rparr>) = Some ENOENT
   \<and> fs_lookup (fs (snd (snd (Flush hostEnv
      \<lparr>ReadCloser = Some [], FileName = ''/home/x.zip'', Permission = 0,
        files = [\<lparr>Name = ''a.txt'', absPath = ''/missing''\<rparr>],
        isHasChanged = True, writer = \<lparr>members = [], hdrErr = Map.empty\<rparr>,
        isHasWriter = False\<rparr>
      \<lparr>fs = [([''home''], Directory), ([''home'', ''x.zip''], Regular (Packed []))],
        trace = []\<rparr>)))) [''home'', ''x.zip''] = Some (Regular (Packed []))"
proof -
  let ?z = "\<lparr>ReadCloser = Some [], FileName = ''/home/x.zip'', Permission = 0,
        files = [\<lparr>Name = ''a.txt'', absPath = ''/missing''\<rparr>],
        isHasChanged = True, writer = \<lparr>members = [], hdrErr = Map.empty\<rparr>,
        isHasWriter = False\<rparr>"
  let ?w = "\<lparr>fs = [([''home''], Directory), ([''home'', ''x.zip''], Regular (Packed []))],
        trace = []\<rparr>"
  have a: "resolve (FileName ?z) = [''home'', ''x.zip'']" by code_simp
  have t: "resolve (tmpPathOf hostEnv ?z) = [''tmp'', ''cae'', ''x.zip'']" by code_simp
  have h4: "fs_lookup (fs ?w) (resolve (FileName ?z)) = Some (Regular (Packed []))"
    unfolding a by (simp add: fs_lookup_def)
  have h5: "\<not> prefix (resolve (tmpPathOf hostEnv ?z)) (resolve (FileName ?z))"
    unfolding a t by simp
  have "flushDest ?z (tmpPathOf hostEnv ?z) \<lparr>Name = ''a.txt'', absPath = ''/missing''\<rparr>
      = Some [''tmp'', ''cae'', ''x.zip'', ''a.txt'']"
    by code_simp
  then have h6: "\<forall>f\<in>set (files ?z). flushDest ?z (tmpPathOf hostEnv ?z) f \<noteq> Some (resolve (FileName ?z))"
    unfolding a by simp
  have h7: "fst (flushLoop ?z (tmpPathOf hostEnv ?z) (files ?z)
      (os_RemoveAll (tmpPathOf hostEnv ?z) ?w)) = Some ENOENT"
    by code_simp
  from Flush_failure_keeps_archive [OF _ _ _ h4 h5 h6 h7] show ?thesis
    unfolding a by simp
qed

text \<open>
  C3 as stated fails for an archive kept at the scratch path itself
  (\<open>/tmp/cae/x.zip\<close>): the first \<open>os.RemoveAll\<close> deletes it, and the failing
  materialisation leaves it deleted. It also fails when an entry is named
  \<open>../../x.zip\<close>: its materialisation overwrites the archive \<open>/tmp/x.zip\<close> before
  the next entry fails.
\<close>

theorem Flush_failure_counterexample:
  "fs_lookup [([''tmp''], Directory), ([''tmp'', ''cae''], Directory),
              ([''tmp'', ''cae'', ''x.zip''], Regular (Packed []))] (resolve ''/tmp/cae/x.zip'')
     = Some (Regular (Packed []))
   \<and> fst (Flush hostEnv
      \<lparr>ReadCloser = Some [], FileName = ''/tmp/cae/x.zip'', Permission = 0,
        files = [\<lparr>Name = ''a.txt'', absPath = ''/missing''\<rparr>],
        isHasChanged = True, writer = \<lparr>members = [], hdrErr = Map.empty\<rparr>,
        isHasWriter = False\<rparr>
      \<lparr>fs = [([''tmp''], Directory), ([''tmp'', ''cae''], Directory),
              ([''tmp'', ''cae'', ''x.zip''], Regular (Packed []))],
        trace = []\<rparr>) = Some ENOENT
   \<and> fs_lookup (fs (snd (snd (Flush hostEnv
      \<lparr>ReadCloser = Some [], FileName = ''/tmp/cae/x.zip'', Permission = 0,
        files = [\<lparr>Name = ''a.txt'', absPath = ''/missing''\<rparr>],
        isHasChanged = True, writer = \<lparr>members = [], hdrErr = Map.empty\<rparr>,
        isHasWriter = False\<rparr>
      \<lparr>fs = [([''tmp''], Directory), ([''tmp'', ''cae''], Directory),
              ([''tmp'', ''cae'', ''x.zip''], Regular (Packed []))],
        trace = []\<rparr>)))) (resolve ''/tmp/cae/x.zip'') = None
   \<and> fst (Flush hostEnv
      \<lparr>ReadCloser = Some [], FileName = ''/tmp/x.zip'', Permission = 0,
        files = [\<lparr>Name = ''../../x.zip'', absPath = ''/src/other''\<rparr>,
                 \<lparr>Name = ''b.txt'', absPath = ''/missing''\<rparr>],
        isHasChanged = True, writer = \<lparr>members = [], hdrErr = Map.empty\<rparr>,
        isHasWriter = False\<rparr>
      \<lparr>fs = [([''tmp''], Directory), ([''tmp'', ''x.zip''], Regular (Packed [])),
              ([''src''], Directory), ([''src'', ''other''], Regular (Raw [6, 6, 6]))],
        trace = []\<rparr>) = Some ENOENT
   \<and> fs_lookup (fs (snd (snd (Flush hostEnv
      \<lparr>ReadCloser = Some [], FileName = ''/tmp/x.zip'', Permission = 0,
        files = [\<lparr>Name = ''../../x.zip'', absPath = ''/src/other''\<rparr>,
                 \<lparr>Name = ''b.txt'', absPath = ''/missing''\<rparr>],
        isHasChanged = True, writer = \<lparr>members = [], hdrErr = Map.empty\<rparr>,
        isHasWriter = False\<rparr>
      \<lparr>fs = [([''tmp''], Directory), ([''tmp'', ''x.zip''], Regular (Packed [])),
              ([''src''], Directory), ([''src'', ''other''], Regular (Raw [6, 6, 6]))],
        trace = []\<rparr>)))) (resolve ''/tmp/x.zip'') = Some (Regular (Raw [6, 6, 6]))"
  by code_simp

section \<open>Joining and cleaning paths\<close>

lemma joinc_snoc: "cs \<noteq> [] \<Longrightarrow> joinc (cs @ [c]) = joinc cs @ CHR ''/'' # c"
  by (induction cs) auto

lemma splitc_append: "splitc (a @ CHR ''/'' # b) = splitc a @ splitc b"
proof (induction a)
  case Nil
  show ?case by simp
next
  case (Cons x a)
  then show ?case using splitc_nonempty [of a] by (cases "splitc a") auto
qed

lemma splitc_joinc:
  "cs \<noteq> [] \<Longrightarrow> \<forall>c\<in>set cs. CHR ''/'' \<notin> set c \<Longrightarrow> splitc (joinc cs) = cs"
proof (induction cs)
  case Nil
  then show ?case by simp
next
  case (Cons c cs)
  show ?case
  proof (cases "cs = []")
    case True
    with Cons.prems show ?thesis by (simp add: splitc_noslash)
  next
    case False
    with Cons show ?thesis by (simp add: splitc_append splitc_noslash)
  qed
qed

lemma fold_cstep_valid:
  "list_all validName cs \<Longrightarrow> fold (cstep r) cs st = rev cs @ st"
  by (induction cs arbitrary: st) (auto simp: cstep_def validName_def)

lemma filter_plain_valid: "list_all validName cs \<Longrightarrow> filter plain cs = cs"
  by (induction cs) (auto simp: plain_def validName_def)

lemma valid_noslash: "list_all validName cs \<Longrightarrow> \<forall>c\<in>set cs. CHR ''/'' \<notin> set c"
  by (auto simp: list_all_iff validName_def)

lemma ccomps_joinc:
  assumes "list_all validName cs"
  shows "ccomps r (joinc cs) = cs"
proof (cases "cs = []")
  case True
  then show ?thesis by (simp add: ccomps_def plain_def)
next
  case False
  with assms show ?thesis
    by (simp add: ccomps_def splitc_joinc valid_noslash filter_plain_valid fold_cstep_valid)
qed

lemma ccomps_joinc_slash:
  assumes "list_all validName cs"
  shows "ccomps r (joinc cs @ ''/'') = cs"
proof -
  have "splitc (joinc cs @ ''/'') = splitc (joinc cs) @ [[]]"
    using splitc_append [of "joinc cs" "[]"] by simp
  then have "filter plain (splitc (joinc cs @ ''/'')) = filter plain (splitc (joinc cs))"
    by (simp add: plain_def)
  then show ?thesis using ccomps_joinc [OF assms, of r] by (simp add: ccomps_def)
qed

lemma joinc_nonempty: "cs \<noteq> [] \<Longrightarrow> list_all validName cs \<Longrightarrow> joinc cs \<noteq> []"
  by (cases cs) (auto simp: validName_def)

lemma hd_joinc: "cs \<noteq> [] \<Longrightarrow> list_all validName cs \<Longrightarrow> hd (joinc cs) \<noteq> CHR ''/''"
  by (cases cs; cases "hd cs") (auto simp: validName_def)

lemma Clean_joinc:
  "cs \<noteq> [] \<Longrightarrow> list_all validName cs \<Longrightarrow> Clean (joinc cs) = joinc cs"
  by (simp add: Clean_def joinc_nonempty hd_joinc ccomps_joinc Let_def)

lemma Clean_joinc_slash:
  "cs \<noteq> [] \<Longrightarrow> list_all validName cs \<Longrightarrow> Clean (joinc cs @ ''/'') = joinc cs"
  using hd_joinc [of cs] joinc_nonempty [of cs]
  by (simp add: Clean_def ccomps_joinc_slash Let_def hd_append)

lemma Join_child:
  assumes "list_all validName rel" and "validName n"
  shows "Join [joinc rel, n] = joinc (rel @ [n])"
proof (cases "rel = []")
  case True
  with assms(2) Clean_joinc [of "[n]"] show ?thesis
    by (simp add: Join_def validName_def)
next
  case False
  have "Join [joinc rel, n] = Clean (joinc rel @ CHR ''/'' # n)"
    using assms False joinc_nonempty [of rel] by (simp add: Join_def validName_def)
  also have "\<dots> = Clean (joinc (rel @ [n]))" using False by (simp add: joinc_snoc)
  also have "\<dots> = joinc (rel @ [n])" using assms by (simp add: Clean_joinc)
  finally show ?thesis .
qed

lemma fold_cstep_nodots: "''..'' \<notin> set cs \<Longrightarrow> fold (cstep r) cs st = rev cs @ st"
  by (induction cs arbitrary: st) (auto simp: cstep_def)

lemma splitc_no_slash: "c \<in> set (splitc s) \<Longrightarrow> CHR ''/'' \<notin> set c"
proof (induction s arbitrary: c)
  case Nil
  then show ?case by simp
next
  case (Cons x s)
  then show ?case
    using splitc_nonempty [of s] by (cases "splitc s") (auto split: if_splits)
qed

lemma fold_cstep_set: "set (fold (cstep r) P st) \<subseteq> set P \<union> set st \<union> {''..''}"
proof (induction P arbitrary: st)
  case Nil
  show ?case by auto
next
  case (Cons c P)
  have "set (cstep r c st) \<subseteq> {c} \<union> set st \<union> {''..''}"
    by (auto simp: cstep_def split: list.splits if_splits)
  with Cons [of "cstep r c st"] show ?case by auto
qed

lemma fold_cstep_True_nodots:
  "''..'' \<notin> set st \<Longrightarrow> ''..'' \<notin> set (fold (cstep True) P st)"
proof (induction P arbitrary: st)
  case Nil
  then show ?case by simp
next
  case (Cons c P)
  have "''..'' \<notin> set (cstep True c st)"
    using Cons.prems by (auto simp: cstep_def split: list.splits if_splits)
  from Cons.IH [OF this] show ?case by simp
qed

lemma ccomps_True_valid: "list_all validName (ccomps True x)"
proof -
  let ?P = "filter plain (splitc x)"
  have "set (fold (cstep True) ?P []) \<subseteq> set ?P \<union> {''..''}"
    using fold_cstep_set [of True ?P "[]"] by simp
  moreover have "''..'' \<notin> set (fold (cstep True) ?P [])"
    by (rule fold_cstep_True_nodots) simp
  ultimately have "set (fold (cstep True) ?P []) \<subseteq> set ?P - {''..''}" by auto
  then show ?thesis
    by (auto simp: ccomps_def list_all_iff validName_def plain_def dest: splitc_no_slash)
qed

lemma resolve_valid: "list_all validName (resolve s)"
  by (simp add: resolve_def ccomps_True_valid)

lemma fold_cstep_rel:
  "''..'' \<notin> set stT \<Longrightarrow>
   \<exists>m. fold (cstep False) P (stT @ replicate n ''..'')
        = fold (cstep True) P stT @ replicate m ''..''"
proof (induction P arbitrary: stT n)
  case Nil
  show ?case by auto
next
  case (Cons c P)
  show ?case
  proof (cases "c = ''..''")
    case False
    then have "cstep False c (stT @ replicate n ''..'') = (c # stT) @ replicate n ''..''"
      "cstep True c stT = c # stT" by (simp_all add: cstep_def)
    moreover have "''..'' \<notin> set (c # stT)" using False Cons.prems by auto
    ultimately show ?thesis using Cons.IH [of "c # stT" n] by simp
  next
    case True
    show ?thesis
    proof (cases stT)
      case Nil
      have "cstep False c (replicate n ''..'') = replicate (Suc n) ''..''"
        using True by (cases n) (simp_all add: cstep_def replicate_append_same)
      moreover have "cstep True c [] = []" using True by (simp add: cstep_def)
      ultimately show ?thesis using Cons.IH [of "[]" "Suc n"] Nil by simp
    next
      case (Cons t ts)
      with Cons.prems have t: "t \<noteq> ''..''" "''..'' \<notin> set ts" by auto
      have "cstep False c (stT @ replicate n ''..'') = ts @ replicate n ''..''"
        using True Cons t by (simp add: cstep_def)
      moreover have "cstep True c stT = ts" using True Cons t by (simp add: cstep_def)
      ultimately show ?thesis using Cons.IH [OF t(2), of n] by simp
    qed
  qed
qed

lemma cstep_True_dots: "cstep True ''..'' [] = []"
  by (simp add: cstep_def)

lemma fold_cstep_True_dots: "(cstep True ''..'' ^^ m) [] = []"
  by (induction m) (simp_all add: cstep_True_dots)

lemma resolve_slash_joinc:
  assumes "list_all validName cs"
  shows "resolve (CHR ''/'' # joinc cs) = cs"
proof -
  have "splitc (CHR ''/'' # joinc cs) = [] # splitc (joinc cs)" by simp
  then have "filter plain (splitc (CHR ''/'' # joinc cs)) = filter plain (splitc (joinc cs))"
    by (simp add: plain_def)
  then show ?thesis using ccomps_joinc [OF assms, of True] by (simp add: resolve_def ccomps_def)
qed

lemma joinc_empty_iff: "\<forall>c\<in>set cs. c \<noteq> [] \<Longrightarrow> (joinc cs = []) = (cs = [])"
  by (cases cs) auto

lemma resolve_Clean: "resolve (Clean x) = resolve x"
proof (cases "x = []")
  case True
  then show ?thesis by (simp add: Clean_def resolve_def ccomps_def plain_def)
next
  case False
  show ?thesis
  proof (cases "hd x = CHR ''/''")
    case True
    with False show ?thesis
      using resolve_slash_joinc [OF ccomps_True_valid, of x] by (simp add: Clean_def resolve_def)
  next
    case rel: False
    let ?P = "filter plain (splitc x)"
    let ?T = "fold (cstep True) ?P []"
    from fold_cstep_rel [of "[]" ?P 0] obtain m where
      m: "fold (cstep False) ?P [] = ?T @ replicate m ''..''" by auto
    have nd: "''..'' \<notin> set ?T" by (rule fold_cstep_True_nodots) simp
    let ?cF = "replicate m ''..'' @ rev ?T"
    have cF: "ccomps False x = ?cF" using m by (simp add: ccomps_def)
    have sub: "set ?T \<subseteq> set ?P" using fold_cstep_set [of True ?P "[]"] nd by auto
    have ns: "\<forall>c\<in>set ?cF. CHR ''/'' \<notin> set c"
      using sub by (auto dest: splitc_no_slash)
    have pl: "filter plain ?cF = ?cF"
      using sub by (auto simp: filter_id_conv plain_def)
    have ne: "\<forall>c\<in>set ?cF. c \<noteq> []" using sub by (auto simp: plain_def)
    have res: "resolve (joinc ?cF) = rev ?T"
    proof (cases "?cF = []")
      case True
      then show ?thesis by (simp add: resolve_def ccomps_def plain_def)
    next
      case False
      have "fold (cstep True) ?cF [] = ?T"
        using nd by (simp add: fold_cstep_True_dots fold_cstep_nodots)
      with False ns pl show ?thesis by (simp add: resolve_def ccomps_def splitc_joinc)
    qed
    show ?thesis
    proof (cases "joinc ?cF = []")
      case True
      with ne have "?cF = []" using joinc_empty_iff [of ?cF] by blast
      then have "?T = []" by simp
      moreover have "Clean x = ''.''" using False rel True cF by (simp add: Clean_def Let_def)
      ultimately show ?thesis by (simp add: resolve_def ccomps_def plain_def)
    next
      case ne': False
      then have "Clean x = joinc ?cF" using False rel cF by (simp add: Clean_def Let_def)
      with res show ?thesis by (simp add: resolve_def ccomps_def)
    qed
  qed
qed

lemma resolve_append:
  assumes "''..'' \<notin> set (splitc x)"
  shows "resolve (d @ CHR ''/'' # x) = resolve d @ resolve x"
proof -
  have nd: "''..'' \<notin> set (filter plain (splitc x))" using assms by simp
  show ?thesis
    by (simp add: resolve_def ccomps_def splitc_append fold_cstep_nodots [OF nd])
qed

lemma resolve_Join:
  assumes "''..'' \<notin> set (splitc x)"
  shows "resolve (Join [d, x]) = resolve d @ resolve x"
proof -
  have e: "resolve [] = []" by (simp add: resolve_def ccomps_def plain_def)
  show ?thesis
  proof (cases "d = []")
    case True
    then show ?thesis by (cases "x = []") (simp_all add: Join_def resolve_Clean e)
  next
    case False
    show ?thesis
    proof (cases "x = []")
      case True
      with False show ?thesis by (simp add: Join_def resolve_Clean e)
    next
      case nx: False
      with False have "Join [d, x] = Clean (d @ CHR ''/'' # x)" by (simp add: Join_def)
      then show ?thesis by (simp add: resolve_Clean resolve_append [OF assms])
    qed
  qed
qed

section \<open>Trees in the file system\<close>

lemma lookup_mem:
  "distinct (map fst f) \<Longrightarrow> (p, x) \<in> set f \<Longrightarrow> p \<noteq> [] \<Longrightarrow> fs_lookup f p = Some x"
  by (auto simp: fs_lookup_def)

lemma lookup_memD: "fs_lookup f p = Some x \<Longrightarrow> p \<noteq> [] \<Longrightarrow> (p, x) \<in> set f"
  by (auto simp: fs_lookup_def dest: map_of_SomeD)

lemma tree_valid:
  "treeBelow f k \<Longrightarrow> (p, x) \<in> set f \<Longrightarrow> strict_prefix k p \<Longrightarrow>
   list_all validName (drop (length k) p)"
  by (auto simp: treeBelow_def list_all_iff)

lemma tree_parent:
  "treeBelow f k \<Longrightarrow> (p, x) \<in> set f \<Longrightarrow> strict_prefix k p \<Longrightarrow>
   fs_lookup f (butlast p) = Some Directory"
  by (auto simp: treeBelow_def list_all_iff)

lemma tree_distinct: "treeBelow f k \<Longrightarrow> distinct (map fst f)"
  by (simp add: treeBelow_def)

text \<open>Below \<open>K\<close>, the first step from \<open>K\<close> towards any path of the tree is a path of the tree.\<close>

lemma tree_first_step:
  assumes t: "treeBelow f k" and kK: "prefix k K"
  shows "(p, x) \<in> set f \<Longrightarrow> strict_prefix K p \<Longrightarrow> \<exists>y. (take (Suc (length K)) p, y) \<in> set f"
proof (induction "length p" arbitrary: p x rule: less_induct)
  case less
  from less.prems(2) have lp: "length K < length p" by (auto simp: strict_prefix_def prefix_def)
  show ?case
  proof (cases "length p = Suc (length K)")
    case True
    then have "take (Suc (length K)) p = p" by simp
    with less.prems(1) show ?thesis by auto
  next
    case False
    with lp have l2: "Suc (length K) < length p" by simp
    have sk: "strict_prefix k p" using kK less.prems(2) by (auto simp: strict_prefix_def prefix_def)
    from tree_parent [OF t less.prems(1) sk] have par: "fs_lookup f (butlast p) = Some Directory" .
    have bne: "butlast p \<noteq> []" using l2 by (cases p) (auto simp: butlast_conv_take)
    from lookup_memD [OF par bne] have bm: "(butlast p, Directory) \<in> set f" .
    from less.prems(2) obtain zs where p: "p = K @ zs" "zs \<noteq> []"
      by (auto simp: strict_prefix_def prefix_def)
    with l2 have "length zs > 1" by simp
    then have "butlast p = K @ butlast zs" "butlast zs \<noteq> []"
      using p by (auto simp: butlast_append) (cases zs; cases "tl zs"; simp)+
    then have sp: "strict_prefix K (butlast p)" by (auto simp: strict_prefix_def prefix_def)
    have "length (butlast p) < length p" using lp by simp
    from less.hyps [OF this bm sp] obtain y where
      "(take (Suc (length K)) (butlast p), y) \<in> set f" by blast
    moreover have "take (Suc (length K)) (butlast p) = take (Suc (length K)) p"
      using l2 by (simp add: take_butlast)
    ultimately show ?thesis by auto
  qed
qed

lemma expected_cong: "(\<And>p x. (p, x) \<in> set f \<Longrightarrow> Q p = Q' p) \<Longrightarrow> expected f k Q = expected f k Q'"
  by (auto simp: expected_def)

lemma expected_Un: "expected f k (\<lambda>p. Q p \<or> Q' p) = expected f k Q \<union> expected f k Q'"
  by (auto simp: expected_def)

lemma bindE_NoneD: "bindE m k = (None, s') \<Longrightarrow> \<exists>s1. m = (None, s1) \<and> k s1 = (None, s')"
  by (cases m) (auto simp: bindE_def split: option.splits)

lemma pvisit_writer: "pvisit fn n fi s = (r, s1) \<Longrightarrow> fst (snd s1) = fst (snd s)"
  by (auto simp: pvisit_def Let_def)

lemma ppack_dir:
  assumes "fiIsDir fi" and "ppack f src rc fi s = (None, s')"
  shows "members (fst (snd s')) = members (fst (snd s)) @ [(rc @ ''/'', 0, Raw [])]"
  using assms
  by (auto simp: ppack_def packFile_def CreateHeader_def Let_def split: option.splits)

lemma ppack_file:
  assumes "\<not> fiIsDir fi" and "ppack f src rc fi s = (None, s')"
  shows "\<exists>d. fs_lookup f (resolve src) = Some (Regular d)
           \<and> members (fst (snd s')) = members (fst (snd s)) @ [(rc, word_of_int (fiSize fi), d)]"
  using assms
  by (auto simp: ppack_def packFile_def CreateHeader_def Let_def setBody_def
      split: option.splits node.splits)

lemma Readdir_elem:
  assumes "j < length (Readdir f K)"
  shows "\<exists>x. (K @ [fiName (Readdir f K ! j)], x) \<in> set f
           \<and> fiIsDir (Readdir f K ! j) = (x = Directory)
           \<and> fiSize (Readdir f K ! j) = (case x of Directory \<Rightarrow> 0 | Regular d \<Rightarrow> int (dsize d))
           \<and> validName (fiName (Readdir f K ! j))"
proof -
  from assms have "Readdir f K ! j \<in> set (Readdir f K)" by simp
  then obtain p x where px: "(p, x) \<in> set f" "p \<noteq> []" "butlast p = K"
      "validName (last p)" and e: "Readdir f K ! j = infoOf (last p) x"
    by (auto simp: Readdir_def)
  then have "K @ [last p] = p" by (metis append_butlast_last_id)
  with px show ?thesis unfolding e by (auto simp: infoOf_def)
qed

lemma Readdir_complete:
  assumes "(K @ [c], x) \<in> set f" and "validName c"
  shows "\<exists>j<length (Readdir f K). fiName (Readdir f K ! j) = c"
proof -
  have "infoOf c x \<in> set (Readdir f K)"
    using assms by (force simp: Readdir_def)
  then obtain j where "j < length (Readdir f K)" "Readdir f K ! j = infoOf c x"
    by (auto simp: in_set_conv_nth)
  then show ?thesis by (auto simp: infoOf_def)
qed

lemma Readdir_cover:
  assumes t: "treeBelow f k" and kK: "prefix k K" and m: "(p, x) \<in> set f" and sp: "strict_prefix K p"
  shows "\<exists>j<length (Readdir f K). prefix (K @ [fiName (Readdir f K ! j)]) p"
proof -
  from tree_first_step [OF t kK m sp] obtain y where y: "(take (Suc (length K)) p, y) \<in> set f"
    by blast
  from sp obtain c zs where p: "p = K @ c # zs"
    by (auto simp: strict_prefix_def prefix_def) (metis list.exhaust)
  then have q: "take (Suc (length K)) p = K @ [c]" by simp
  have "strict_prefix k (K @ [c])" using kK by (auto simp: strict_prefix_def prefix_def)
  from tree_valid [OF t y [unfolded q] this] have "validName c"
    using kK by (auto simp: prefix_def)
  from Readdir_complete [OF y [unfolded q] this] obtain j where
    "j < length (Readdir f K)" "fiName (Readdir f K ! j) = c" by blast
  with p show ?thesis by (auto simp: prefix_def)
qed

text \<open>Nothing lies below a regular file.\<close>

lemma tree_leaf:
  assumes t: "treeBelow f k" and kq: "prefix k q" and q: "fs_lookup f q = Some (Regular d)"
    and m: "(p, x) \<in> set f" and pq: "prefix q p"
  shows "p = q"
proof (rule ccontr)
  assume "p \<noteq> q"
  with pq have sp: "strict_prefix q p" by (simp add: strict_prefix_def)
  from tree_first_step [OF t kq m sp] obtain y where y: "(take (Suc (length q)) p, y) \<in> set f"
    by blast
  from sp obtain c zs where p: "p = q @ c # zs"
    by (auto simp: strict_prefix_def prefix_def) (metis list.exhaust)
  then have tq: "take (Suc (length q)) p = q @ [c]" by simp
  have "strict_prefix k (q @ [c])" using kq by (auto simp: strict_prefix_def prefix_def)
  from tree_parent [OF t y [unfolded tq] this] q show False by simp
qed

lemma child_dir_set:
  assumes t: "treeBelow f k" and q: "(K @ [c], Directory) \<in> set f" and K: "K = k @ rel0"
  shows "insert (memberOf (rel0 @ [c]) Directory) (expected f k (strict_prefix (K @ [c])))
       = expected f k (prefix (K @ [c]))"
proof -
  have d: "distinct (map fst f)" using t by (rule tree_distinct)
  have one: "x = Directory" if "(K @ [c], x) \<in> set f" for x
    using d q that by (meson eq_key_imp_eq_value)
  have dr: "drop (length k) (K @ [c]) = rel0 @ [c]" using K by simp
  show ?thesis
  proof (intro set_eqI iffI)
    fix m assume "m \<in> insert (memberOf (rel0 @ [c]) Directory) (expected f k (strict_prefix (K @ [c])))"
    then show "m \<in> expected f k (prefix (K @ [c]))"
      using q dr by (auto simp: expected_def strict_prefix_def) (metis dr prefix_order.order_refl)
  next
    fix m assume "m \<in> expected f k (prefix (K @ [c]))"
    then obtain p x where px: "m = memberOf (drop (length k) p) x" "(p, x) \<in> set f"
        "prefix (K @ [c]) p" by (auto simp: expected_def)
    show "m \<in> insert (memberOf (rel0 @ [c]) Directory) (expected f k (strict_prefix (K @ [c])))"
    proof (cases "p = K @ [c]")
      case True
      with px one dr show ?thesis by auto
    next
      case False
      with px show ?thesis by (auto simp: expected_def strict_prefix_def)
    qed
  qed
qed

lemma child_file_set:
  assumes t: "treeBelow f k" and q: "(K @ [c], Regular d) \<in> set f" and K: "K = k @ rel0"
  shows "{memberOf (rel0 @ [c]) (Regular d)} = expected f k (prefix (K @ [c]))"
proof -
  have ds: "distinct (map fst f)" using t by (rule tree_distinct)
  have l: "fs_lookup f (K @ [c]) = Some (Regular d)" using lookup_mem [OF ds q] by simp
  have kq: "prefix k (K @ [c])" using K by simp
  have dr: "drop (length k) (K @ [c]) = rel0 @ [c]" using K by simp
  have only: "p = K @ [c] \<and> x = Regular d" if "(p, x) \<in> set f" "prefix (K @ [c]) p" for p x
  proof -
    from tree_leaf [OF t kq l that] have "p = K @ [c]" .
    moreover from this that(1) q ds have "x = Regular d" by (meson eq_key_imp_eq_value)
    ultimately show ?thesis by simp
  qed
  show ?thesis
  proof (intro set_eqI iffI)
    fix m assume "m \<in> {memberOf (rel0 @ [c]) (Regular d)}"
    then show "m \<in> expected f k (prefix (K @ [c]))"
      using q dr by (auto simp: expected_def) (metis dr prefix_order.order_refl)
  next
    fix m assume "m \<in> expected f k (prefix (K @ [c]))"
    then obtain p x where "m = memberOf (drop (length k) p) x" "(p, x) \<in> set f"
        "prefix (K @ [c]) p" by (auto simp: expected_def)
    with only [of p x] dr show "m \<in> {memberOf (rel0 @ [c]) (Regular d)}" by simp
  qed
qed

section \<open>What \<open>packDir\<close> writes for a tree\<close>

lemma pack_members:
  fixes s :: "'v pst" and s' :: "'v pst"
  shows "treeBelow f k \<Longrightarrow> unfiltered g f k \<Longrightarrow> resolve src = k @ rel0 \<Longrightarrow> rc = joinc rel0
      \<Longrightarrow> list_all validName rel0 \<Longrightarrow> packDir g f fn src rc s = (None, s1)
      \<Longrightarrow> \<exists>ms. members (fst (snd s1)) = members (fst (snd s)) @ ms
             \<and> set ms = expected f k (strict_prefix (k @ rel0))"
    and "treeBelow f k \<Longrightarrow> unfiltered g f k \<Longrightarrow> resolve src = k @ rel0 \<Longrightarrow> rc = joinc rel0
      \<Longrightarrow> list_all validName rel0 \<Longrightarrow> packLoop g f fn src rc i s' = (None, s2)
      \<Longrightarrow> \<exists>ms. members (fst (snd s2)) = members (fst (snd s')) @ ms
             \<and> set ms = expected f k (\<lambda>p. \<exists>j. i \<le> j \<and> j < length (Readdir f (k @ rel0))
                   \<and> prefix (k @ rel0 @ [fiName (Readdir f (k @ rel0) ! j)]) p)"
proof (induction g f fn src rc s and g f fn src rc i s' arbitrary: k rel0 s1 and k rel0 s2
    rule: packDir_packLoop.induct)
  case (1 g f fn src rc s)
  let ?K = "k @ rel0"
  let ?s0 = "(fst s @ [EvOpen (resolve src), EvReaddir (resolve src)], snd s)"
  from "1.prems"(6) obtain x where x: "fs_lookup f (resolve src) = Some x"
    by (cases "fs_lookup f (resolve src)") (auto simp: packDir.simps)
  with "1.prems"(6) have dir: "x = Directory" by (cases x) (auto simp: packDir.simps)
  from "1.prems"(6) x dir have l: "packLoop g f fn src rc 0 ?s0 = (None, s1)"
    by (simp add: packDir.simps)
  from "1.IH" [OF x dir "1.prems"(1,2,3,4,5) l] obtain ms where
    ms: "members (fst (snd s1)) = members (fst (snd ?s0)) @ ms"
      "set ms = expected f k (\<lambda>p. \<exists>j. 0 \<le> j \<and> j < length (Readdir f ?K)
                   \<and> prefix (?K @ [fiName (Readdir f ?K ! j)]) p)" by auto
  have "expected f k (\<lambda>p. \<exists>j. 0 \<le> j \<and> j < length (Readdir f ?K)
                   \<and> prefix (?K @ [fiName (Readdir f ?K ! j)]) p)
      = expected f k (strict_prefix ?K)"
  proof (rule expected_cong)
    fix p y assume py: "(p, y) \<in> set f"
    show "(\<exists>j. 0 \<le> j \<and> j < length (Readdir f ?K) \<and> prefix (?K @ [fiName (Readdir f ?K ! j)]) p)
        = strict_prefix ?K p"
    proof
      assume "\<exists>j. 0 \<le> j \<and> j < length (Readdir f ?K) \<and> prefix (?K @ [fiName (Readdir f ?K ! j)]) p"
      then show "strict_prefix ?K p" by (auto simp: strict_prefix_def prefix_def)
    next
      assume "strict_prefix ?K p"
      from Readdir_cover [OF "1.prems"(1) _ py this] show
        "\<exists>j. 0 \<le> j \<and> j < length (Readdir f ?K) \<and> prefix (?K @ [fiName (Readdir f ?K ! j)]) p"
        by auto
    qed
  qed
  with ms show ?case by auto
next
  case (2 g f fn src rc i s)
  let ?K = "resolve src"
  let ?fis = "Readdir f ?K"
  have rs: "k @ rel0 = ?K" using "2.prems"(3) by simp
  have rs': "k @ rel0 @ zs = ?K @ zs" for zs using rs [symmetric] by simp
  let ?Q = "\<lambda>i p. \<exists>j. i \<le> j \<and> j < length ?fis \<and> prefix (?K @ [fiName (?fis ! j)]) p"
  have "\<exists>ms. members (fst (snd s2)) = members (fst (snd s)) @ ms \<and> set ms = expected f k (?Q i)"
  proof (cases "length ?fis \<le> i")
    case True
    then have "packLoop g f fn src rc i s = (None, s)" by (simp add: packLoop.simps)
    with "2.prems"(6) have "s2 = s" by simp
    moreover have "expected f k (?Q i) = {}" using True by (auto simp: expected_def)
    ultimately show ?thesis by simp
  next
    case False
    then have i: "i < length ?fis" by simp
    let ?fi = "?fis ! i"
    let ?c = "fiName ?fi"
    from Readdir_elem [OF i] obtain x where x: "(?K @ [?c], x) \<in> set f"
      "fiIsDir ?fi = (x = Directory)"
      "validName ?c"
      and xs: "fiSize ?fi = (case x of Directory \<Rightarrow> 0 | Regular d \<Rightarrow> int (dsize d))" by blast
    have spk: "strict_prefix k (?K @ [?c])"
      unfolding rs [symmetric] by (auto simp: strict_prefix_def prefix_def)
    have nf: "\<not> g ?c" using "2.prems"(2) x(1) spk by (auto simp: unfiltered_def list_all_iff)
    let ?cur = "src @ ''/'' @ ?c"
    let ?tmp = "Join [rc, ?c]"
    let ?one = "\<lambda>s1. if fiIsDir ?fi
          then bindE (ppack f src ?tmp ?fi s1) (\<lambda>s2. packDir g f fn ?cur ?tmp s2)
          else ppack f ?cur ?tmp ?fi s1"
    have eq: "packLoop g f fn src rc i s = bindE (pvisit fn ?cur ?fi s)
        (\<lambda>s1. bindE (?one s1) (\<lambda>s3. packLoop g f fn src rc (Suc i) s3))"
      using i nf by (subst packLoop.simps) simp
    from bindE_NoneD [OF "2.prems"(6) [unfolded eq]] obtain sa where
      v: "pvisit fn ?cur ?fi s = (None, sa)"
      and r1: "bindE (?one sa) (\<lambda>s3. packLoop g f fn src rc (Suc i) s3) = (None, s2)" by blast
    from bindE_NoneD [OF r1] obtain sb where
      one: "?one sa = (None, sb)" and rest: "packLoop g f fn src rc (Suc i) sb = (None, s2)" by blast
    have wa: "fst (snd sa) = fst (snd s)" using pvisit_writer [OF v] .
    have tmp: "?tmp = joinc (rel0 @ [?c])"
      using Join_child [OF "2.prems"(5) x(3)] "2.prems"(4) by simp
    have rcur: "resolve ?cur = ?K @ [?c]" using resolve_child [OF x(3), of src] by simp
    have ds: "distinct (map fst f)" using "2.prems"(1) by (rule tree_distinct)
    have lx: "fs_lookup f (?K @ [?c]) = Some x" using lookup_mem [OF ds x(1)] by simp
    have child: "\<exists>ms. members (fst (snd sb)) = members (fst (snd s)) @ ms
        \<and> set ms = expected f k (prefix (?K @ [?c]))"
    proof (cases "fiIsDir ?fi")
      case True
      then have xd: "x = Directory" using x(2) by simp
      from one True have "bindE (ppack f src ?tmp ?fi sa) (\<lambda>s2. packDir g f fn ?cur ?tmp s2) = (None, sb)"
        by simp
      from bindE_NoneD [OF this] obtain sc where
        pk: "ppack f src ?tmp ?fi sa = (None, sc)" and pd: "packDir g f fn ?cur ?tmp sc = (None, sb)"
        by blast
      have mc: "members (fst (snd sc)) = members (fst (snd s)) @ [memberOf (rel0 @ [?c]) Directory]"
        using ppack_dir [OF True pk] wa tmp by (simp add: memberOf_def)
      have va: "list_all validName (rel0 @ [?c])" using "2.prems"(5) x(3) by simp
      have rc': "resolve ?cur = k @ (rel0 @ [?c])" using rcur rs [symmetric] by simp
      from "2.IH"(2) [OF _ _ v True pk "2.prems"(1,2) rc' tmp va pd] False nf
      obtain ms where ms: "members (fst (snd sb)) = members (fst (snd sc)) @ ms"
        "set ms = expected f k (strict_prefix (?K @ [?c]))" unfolding rs' by auto
      have "set (memberOf (rel0 @ [?c]) Directory # ms) = expected f k (prefix (?K @ [?c]))"
        using child_dir_set [OF "2.prems"(1) x(1) [unfolded xd] rs [symmetric]] ms(2) by simp
      with ms(1) mc show ?thesis by (intro exI [of _ "memberOf (rel0 @ [?c]) Directory # ms"]) simp
    next
      case nd: False
      with one have pk: "ppack f ?cur ?tmp ?fi sa = (None, sb)" by simp
      from ppack_file [OF nd pk] obtain d where
        d: "fs_lookup f (resolve ?cur) = Some (Regular d)"
          "members (fst (snd sb)) = members (fst (snd sa)) @ [(?tmp, word_of_int (fiSize ?fi), d)]"
        by blast
      from d(1) rcur lx have xr: "x = Regular d" by simp
      have "fiSize ?fi = int (dsize d)" using xs xr by simp
      then have "(?tmp, word_of_int (fiSize ?fi), d) = memberOf (rel0 @ [?c]) (Regular d)"
        using tmp by (simp add: memberOf_def)
      with d(2) wa have "members (fst (snd sb)) = members (fst (snd s)) @ [memberOf (rel0 @ [?c]) (Regular d)]"
        by simp
      moreover have "set [memberOf (rel0 @ [?c]) (Regular d)] = expected f k (prefix (?K @ [?c]))"
        using child_file_set [OF "2.prems"(1) x(1) [unfolded xr] rs [symmetric]] by simp
      ultimately show ?thesis by blast
    qed
    then obtain ms1 where ms1: "members (fst (snd sb)) = members (fst (snd s)) @ ms1"
      "set ms1 = expected f k (prefix (?K @ [?c]))" by blast
    from "2.IH"(3) [OF _ _ v one "2.prems"(1,2,3,4,5) rest] False nf
    obtain ms2 where ms2: "members (fst (snd s2)) = members (fst (snd sb)) @ ms2"
      "set ms2 = expected f k (?Q (Suc i))" unfolding rs rs' by auto
    have "expected f k (?Q i) = expected f k (\<lambda>p. prefix (?K @ [?c]) p \<or> ?Q (Suc i) p)"
    proof (rule expected_cong)
      fix p y
      show "?Q i p = (prefix (?K @ [?c]) p \<or> ?Q (Suc i) p)"
      proof
        assume "?Q i p"
        then obtain j where j: "i \<le> j" "j < length ?fis" "prefix (?K @ [fiName (?fis ! j)]) p"
          by blast
        show "prefix (?K @ [?c]) p \<or> ?Q (Suc i) p"
        proof (cases "j = i")
          case True
          with j show ?thesis by simp
        next
          case False
          with j have "Suc i \<le> j" by simp
          with j show ?thesis by blast
        qed
      next
        assume "prefix (?K @ [?c]) p \<or> ?Q (Suc i) p"
        then show "?Q i p"
        proof
          assume "prefix (?K @ [?c]) p"
          with i show ?thesis by blast
        next
          assume "?Q (Suc i) p"
          then obtain j where "Suc i \<le> j" "j < length ?fis" "prefix (?K @ [fiName (?fis ! j)]) p"
            by blast
          then show ?thesis by (intro exI [of _ j]) simp
        qed
      qed
    qed
    then have "set (ms1 @ ms2) = expected f k (?Q i)"
      using ms1(2) ms2(2) by (simp add: expected_Un)
    with ms1(1) ms2(1) show ?thesis by (intro exI [of _ "ms1 @ ms2"]) simp
  qed
  then show ?case unfolding rs' rs .
qed

section \<open>Paths of the members\<close>

lemma set_joinc: "set (joinc cs) \<subseteq> \<Union> (set ` set cs) \<union> {CHR ''/''}"
  by (induction cs) auto

lemma slashes_id: "CHR 0x5C \<notin> set s \<Longrightarrow> slashes s = s"
  by (induction s) (auto simp: slashes_def)

lemma slashes_joinc: "noBackslash rel \<Longrightarrow> slashes (joinc rel) = joinc rel"
  using set_joinc [of rel] by (intro slashes_id) (auto simp: noBackslash_def list_all_iff)

lemma slashes_joinc_slash: "noBackslash rel \<Longrightarrow> slashes (joinc rel @ ''/'') = joinc rel @ ''/''"
  using set_joinc [of rel] by (intro slashes_id) (auto simp: noBackslash_def list_all_iff)

lemma last_joinc: "rel \<noteq> [] \<Longrightarrow> list_all validName rel \<Longrightarrow> last (joinc rel) = last (last rel)"
proof (induction rel)
  case Nil
  then show ?case by simp
next
  case (Cons c rel)
  show ?case
  proof (cases "rel = []")
    case True
    then show ?thesis by simp
  next
    case False
    with Cons.prems have "joinc rel \<noteq> []" by (simp add: joinc_nonempty)
    with False Cons show ?thesis by simp
  qed
qed

lemma not_suffix_joinc:
  assumes "rel \<noteq> []" and "list_all validName rel"
  shows "\<not> HasSuffixSlash (joinc rel)"
proof -
  have "validName (last rel)" using assms by (simp add: list_all_iff)
  then have "last (last rel) \<noteq> CHR ''/''" by (auto simp: validName_def) (metis last_in_set)
  with last_joinc [OF assms] show ?thesis by (simp add: HasSuffixSlash_def)
qed

lemma suffix_joinc_slash: "HasSuffixSlash (joinc rel @ ''/'')"
  by (simp add: HasSuffixSlash_def)

lemma splitc_joinc_nodots:
  assumes "list_all validName rel"
  shows "''..'' \<notin> set (splitc (joinc rel))" "''..'' \<notin> set (splitc (joinc rel @ ''/''))"
proof -
  have a: "''..'' \<notin> set rel" using assms by (auto simp: list_all_iff validName_def)
  have e: "splitc [] = [[]]" by simp
  show "''..'' \<notin> set (splitc (joinc rel))"
  proof (cases "rel = []")
    case True
    then show ?thesis by simp
  next
    case False
    with assms a show ?thesis by (simp add: splitc_joinc valid_noslash)
  qed
  then show "''..'' \<notin> set (splitc (joinc rel @ ''/''))"
    using splitc_append [of "joinc rel" "[]"] by simp
qed

lemma resolve_joinc: "list_all validName rel \<Longrightarrow> resolve (joinc rel) = rel"
  by (simp add: resolve_def ccomps_joinc)

lemma resolve_joinc_slash: "list_all validName rel \<Longrightarrow> resolve (joinc rel @ ''/'') = rel"
  by (simp add: resolve_def ccomps_joinc_slash)

lemma resolve_Join_file:
  "list_all validName rel \<Longrightarrow> resolve (Join [d, joinc rel]) = resolve d @ rel"
  by (simp add: resolve_Join splitc_joinc_nodots resolve_joinc)

lemma resolve_Join_dir:
  "list_all validName rel \<Longrightarrow> resolve (Join [d, joinc rel @ ''/'']) = resolve d @ rel"
  by (simp add: resolve_Join splitc_joinc_nodots resolve_joinc_slash)

lemma dir_part:
  assumes "list_all validName (bs @ [c])"
  shows "rev (dropWhile (\<lambda>x. x \<noteq> CHR ''/'') (rev (joinc (bs @ [c]))))
       = (if bs = [] then [] else joinc bs @ ''/'')"
proof -
  have c: "\<And>x. x \<in> set (rev c) \<Longrightarrow> x \<noteq> CHR ''/''" using assms by (auto simp: validName_def)
  show ?thesis
  proof (cases "bs = []")
    case True
    then have "dropWhile (\<lambda>x. x \<noteq> CHR ''/'') (rev (joinc (bs @ [c]))) = []"
      using c by (simp add: dropWhile_eq_Nil_conv)
    with True show ?thesis by simp
  next
    case False
    then have "rev (joinc (bs @ [c])) = rev c @ CHR ''/'' # rev (joinc bs)"
      by (simp add: joinc_snoc)
    moreover have "dropWhile (\<lambda>x. x \<noteq> CHR ''/'') (rev c @ CHR ''/'' # rev (joinc bs))
        = dropWhile (\<lambda>x. x \<noteq> CHR ''/'') (CHR ''/'' # rev (joinc bs))"
      by (rule dropWhile_append2) (use c in auto)
    ultimately have "dropWhile (\<lambda>x. x \<noteq> CHR ''/'') (rev (joinc (bs @ [c]))) = CHR ''/'' # rev (joinc bs)"
      by simp
    with False show ?thesis by simp
  qed
qed

lemma Dir_of_joinc:
  assumes "rel \<noteq> []" and "list_all validName rel"
  shows "Dir_of (joinc rel) = (if butlast rel = [] then ''.'' else joinc (butlast rel))"
proof -
  from assms(1) have r: "rel = butlast rel @ [last rel]" by simp
  have v: "list_all validName (butlast rel @ [last rel])" using assms(2) r by simp
  have vb: "list_all validName (butlast rel)" using assms(2) by (auto simp: list_all_iff dest: in_set_butlastD)
  have d: "Dir_of (joinc rel) = Clean (if butlast rel = [] then [] else joinc (butlast rel) @ ''/'')"
    using dir_part [OF v] r by (simp add: Dir_of_def)
  show ?thesis
  proof (cases "butlast rel = []")
    case True
    with d show ?thesis by (simp add: Clean_def)
  next
    case False
    with d vb Clean_joinc_slash [of "butlast rel"] show ?thesis by simp
  qed
qed

lemma resolve_Join_parent:
  assumes "rel \<noteq> []" and "list_all validName rel"
  shows "resolve (Join [d, Dir_of (joinc rel)]) = resolve d @ butlast rel"
proof -
  have vb: "list_all validName (butlast rel)" using assms(2) by (auto simp: list_all_iff dest: in_set_butlastD)
  show ?thesis
  proof (cases "butlast rel = []")
    case True
    then have "Dir_of (joinc rel) = ''.''" using Dir_of_joinc [OF assms] by simp
    moreover have "''..'' \<notin> set (splitc ''.'')" by simp
    moreover have "resolve ''.'' = []" by (simp add: resolve_def ccomps_def plain_def)
    ultimately show ?thesis using True by (simp add: resolve_Join)
  next
    case False
    then have "Dir_of (joinc rel) = joinc (butlast rel)" using Dir_of_joinc [OF assms] by simp
    then show ?thesis using vb by (simp add: resolve_Join_file)
  qed
qed

section \<open>Extracting the members of a tree\<close>

lemma lookup_put:
  assumes "k \<noteq> []"
  shows "fs_lookup (fs_put k v f) p = (if p = k then Some v else fs_lookup f p)"
proof -
  have "map_of (fs_put k v f) = (map_of f)(k \<mapsto> v)" by (induction f) auto
  with assms show ?thesis by (auto simp: fs_lookup_def)
qed

lemma mkdirs_ok:
  assumes "\<forall>i. 0 < i \<and> i \<le> length cs \<longrightarrow>
      fs_lookup f (done @ take i cs) = None \<or> fs_lookup f (done @ take i cs) = Some Directory"
  shows "fst (mkdirs done cs f) = None
       \<and> (\<forall>p. fs_lookup (snd (mkdirs done cs f)) p =
            (if \<exists>i. 0 < i \<and> i \<le> length cs \<and> p = done @ take i cs then Some Directory
             else fs_lookup f p))"
  using assms
proof (induction cs arbitrary: "done" f)
  case Nil
  show ?case by simp
next
  case (Cons c cs)
  let ?p0 = "done @ [c]"
  have take_shift: "?p0 @ take i cs = done @ take (Suc i) (c # cs)" for i by simp
  from Cons.prems [rule_format, of 1] have p0: "fs_lookup f ?p0 = None \<or> fs_lookup f ?p0 = Some Directory"
    by simp
  have idx: "(\<exists>i. 0 < i \<and> i \<le> length (c # cs) \<and> p = done @ take i (c # cs))
      = (p = ?p0 \<or> (\<exists>i. 0 < i \<and> i \<le> length cs \<and> p = ?p0 @ take i cs))" for p
  proof
    assume "\<exists>i. 0 < i \<and> i \<le> length (c # cs) \<and> p = done @ take i (c # cs)"
    then obtain i where i: "0 < i" "i \<le> length (c # cs)" "p = done @ take i (c # cs)" by blast
    then obtain j where j: "i = Suc j" by (cases i) auto
    show "p = ?p0 \<or> (\<exists>i. 0 < i \<and> i \<le> length cs \<and> p = ?p0 @ take i cs)"
    proof (cases j)
      case 0
      with i j show ?thesis by simp
    next
      case (Suc n)
      with i j have "0 < j \<and> j \<le> length cs \<and> p = ?p0 @ take j cs" by simp
      then show ?thesis by blast
    qed
  next
    assume "p = ?p0 \<or> (\<exists>i. 0 < i \<and> i \<le> length cs \<and> p = ?p0 @ take i cs)"
    then show "\<exists>i. 0 < i \<and> i \<le> length (c # cs) \<and> p = done @ take i (c # cs)"
    proof
      assume "p = ?p0"
      then show ?thesis by (intro exI [of _ 1]) simp
    next
      assume "\<exists>i. 0 < i \<and> i \<le> length cs \<and> p = ?p0 @ take i cs"
      then obtain i where "0 < i" "i \<le> length cs" "p = ?p0 @ take i cs" by blast
      then show ?thesis by (intro exI [of _ "Suc i"]) simp
    qed
  qed
  have p0ne: "?p0 \<noteq> []" by simp
  from p0 show ?case
  proof
    assume d: "fs_lookup f ?p0 = Some Directory"
    have pre: "\<forall>i. 0 < i \<and> i \<le> length cs \<longrightarrow>
        fs_lookup f (?p0 @ take i cs) = None \<or> fs_lookup f (?p0 @ take i cs) = Some Directory"
    proof (intro allI impI)
      fix i assume "0 < i \<and> i \<le> length cs"
      then have "0 < Suc i \<and> Suc i \<le> length (c # cs)" by simp
      from Cons.prems [rule_format, OF this] show
        "fs_lookup f (?p0 @ take i cs) = None \<or> fs_lookup f (?p0 @ take i cs) = Some Directory"
        by simp
    qed
    have res: "mkdirs done (c # cs) f = mkdirs ?p0 cs f" using d by (simp add: Let_def)
    from Cons.IH [OF pre] have okI: "fst (mkdirs ?p0 cs f) = None"
      and lookI: "\<And>p. fs_lookup (snd (mkdirs ?p0 cs f)) p =
          (if \<exists>i. 0 < i \<and> i \<le> length cs \<and> p = ?p0 @ take i cs then Some Directory
           else fs_lookup f p)" by blast+
    show ?thesis unfolding res
    proof (intro conjI allI)
      show "fst (mkdirs ?p0 cs f) = None" by (rule okI)
    next
      fix p
      show "fs_lookup (snd (mkdirs ?p0 cs f)) p =
          (if \<exists>i. 0 < i \<and> i \<le> length (c # cs) \<and> p = done @ take i (c # cs) then Some Directory
           else fs_lookup f p)"
        unfolding idx [of p] lookI [of p] using d by (cases "p = ?p0") auto
    qed
  next
    assume n: "fs_lookup f ?p0 = None"
    let ?f = "fs_put ?p0 Directory f"
    have pre: "\<forall>i. 0 < i \<and> i \<le> length cs \<longrightarrow>
        fs_lookup ?f (?p0 @ take i cs) = None \<or> fs_lookup ?f (?p0 @ take i cs) = Some Directory"
    proof (intro allI impI)
      fix i assume i: "0 < i \<and> i \<le> length cs"
      then have "0 < Suc i \<and> Suc i \<le> length (c # cs)" by simp
      from Cons.prems [rule_format, OF this]
      have "fs_lookup f (?p0 @ take i cs) = None \<or> fs_lookup f (?p0 @ take i cs) = Some Directory"
        by simp
      then show "fs_lookup ?f (?p0 @ take i cs) = None \<or> fs_lookup ?f (?p0 @ take i cs) = Some Directory"
        unfolding lookup_put [OF p0ne] by auto
    qed
    have res: "mkdirs done (c # cs) f = mkdirs ?p0 cs ?f" using n by (simp add: Let_def)
    from Cons.IH [OF pre] have okI: "fst (mkdirs ?p0 cs ?f) = None"
      and lookI: "\<And>p. fs_lookup (snd (mkdirs ?p0 cs ?f)) p =
          (if \<exists>i. 0 < i \<and> i \<le> length cs \<and> p = ?p0 @ take i cs then Some Directory
           else fs_lookup ?f p)" by blast+
    show ?thesis unfolding res
    proof (intro conjI allI)
      show "fst (mkdirs ?p0 cs ?f) = None" by (rule okI)
    next
      fix p
      show "fs_lookup (snd (mkdirs ?p0 cs ?f)) p =
          (if \<exists>i. 0 < i \<and> i \<le> length (c # cs) \<and> p = done @ take i (c # cs) then Some Directory
           else fs_lookup f p)"
        unfolding idx [of p] lookI [of p] lookup_put [OF p0ne] by (cases "p = ?p0") auto
    qed
  qed
qed

lemma keeps_refl: "keeps f f"
  by (simp add: keeps_def)

lemma keeps_trans: "keeps f f' \<Longrightarrow> keeps f' f'' \<Longrightarrow> keeps f f''"
  by (simp add: keeps_def)

text \<open>Creating the directories down to \<open>K @ r\<close>, where the tree has directories.\<close>

lemma mkdirs_embeds:
  assumes e: "embeds T K f"
    and dirs: "\<forall>j. 0 < j \<and> j \<le> length r \<longrightarrow> T (take j r) = Some Directory"
  shows "fst (mkdirs [] (K @ r) f) = None
       \<and> embeds T K (snd (mkdirs [] (K @ r) f))
       \<and> keeps f (snd (mkdirs [] (K @ r) f))
       \<and> fs_lookup (snd (mkdirs [] (K @ r) f)) (K @ r) = Some Directory
       \<and> (\<forall>q. \<not> prefix q (K @ r) \<longrightarrow> fs_lookup (snd (mkdirs [] (K @ r) f)) q = fs_lookup f q)"
proof -
  define P where "P = K @ r"
  define f' where "f' = snd (mkdirs [] P f)"
  define onpath where "onpath p = (\<exists>i. 0 < i \<and> i \<le> length P \<and> p = take i P)" for p
  have old: "fs_lookup f (take i P) = None \<or> fs_lookup f (take i P) = Some Directory"
    if "0 < i" "i \<le> length P" for i
  proof (cases "i \<le> length K")
    case True
    with e show ?thesis by (simp add: embeds_def P_def)
  next
    case False
    let ?j = "i - length K"
    have j: "0 < ?j" "?j \<le> length r" using False that by (auto simp: P_def)
    have t: "take i P = K @ take ?j r" using False by (simp add: P_def)
    have "take ?j r \<noteq> []" using j by (cases r) auto
    with e have "fs_lookup f (K @ take ?j r) = None \<or> fs_lookup f (K @ take ?j r) = T (take ?j r)"
      by (simp add: embeds_def)
    with dirs j t show ?thesis by auto
  qed
  then have pre: "\<forall>i. 0 < i \<and> i \<le> length P \<longrightarrow>
      fs_lookup f ([] @ take i P) = None \<or> fs_lookup f ([] @ take i P) = Some Directory"
    by simp
  from mkdirs_ok [OF pre] have ok: "fst (mkdirs [] P f) = None"
    and look: "\<And>p. fs_lookup f' p = (if onpath p then Some Directory else fs_lookup f p)"
    by (auto simp: f'_def onpath_def)
  have k: "keeps f f'"
    unfolding keeps_def
  proof (intro allI impI)
    fix p y assume py: "fs_lookup f p = Some y"
    show "fs_lookup f' p = Some y"
    proof (cases "onpath p")
      case True
      then obtain i where i: "0 < i" "i \<le> length P" "p = take i P" by (auto simp: onpath_def)
      from old [OF i(1,2)] py i(3) have "y = Directory" by simp
      with True look [of p] show ?thesis by simp
    next
      case False
      with look [of p] py show ?thesis by simp
    qed
  qed
  have top: "fs_lookup f' P = Some Directory"
  proof (cases "P = []")
    case True
    then show ?thesis by (simp add: fs_lookup_def)
  next
    case False
    then have "onpath P" unfolding onpath_def by (intro exI [of _ "length P"]) simp
    with look [of P] show ?thesis by simp
  qed
  have em: "embeds T K f'"
    unfolding embeds_def
  proof (intro conjI allI impI)
    fix i assume "i \<le> length K"
    with e have "fs_lookup f (take i K) = Some Directory" by (simp add: embeds_def)
    with k show "fs_lookup f' (take i K) = Some Directory" by (simp add: keeps_def)
  next
    fix rel :: fpath assume ne: "rel \<noteq> []"
    show "fs_lookup f' (K @ rel) = None \<or> fs_lookup f' (K @ rel) = T rel"
    proof (cases "onpath (K @ rel)")
      case True
      then obtain i where i: "0 < i" "i \<le> length P" "K @ rel = take i P" by (auto simp: onpath_def)
      have "length (K @ rel) = i" using i(2,3) by (metis length_take min.absorb2)
      then have li: "length K < i" using ne by auto
      then have "take i P = K @ take (i - length K) r" by (simp add: P_def)
      with i(3) have rel: "rel = take (i - length K) r" by simp
      have "0 < i - length K \<and> i - length K \<le> length r" using li i(2) by (auto simp: P_def)
      with dirs rel have "T rel = Some Directory" by blast
      with True look [of "K @ rel"] show ?thesis by simp
    next
      case False
      with look [of "K @ rel"] e ne show ?thesis by (simp add: embeds_def)
    qed
  qed
  have out: "\<forall>q. \<not> prefix q P \<longrightarrow> fs_lookup f' q = fs_lookup f q"
  proof (intro allI impI)
    fix q assume "\<not> prefix q P"
    then have "\<not> onpath q" by (auto simp: onpath_def take_is_prefix)
    with look [of q] show "fs_lookup f' q = fs_lookup f q" by simp
  qed
  from ok em k top out show ?thesis unfolding f'_def P_def by simp
qed

lemma fs_emit9: "fs (emit e w) = fs w"
  by (simp add: emit_def)

lemma extractFile_fs:
  assumes "zOpenErr f = None"
    and "resolve (Join [d, Dir_of (zName f)]) = P"
    and "resolve (Join [d, zName f]) = k" and "k \<noteq> []"
    and "fs_lookup (snd (mkdirs [] P (fs w))) (butlast k) = Some Directory"
    and "fs_lookup (snd (mkdirs [] P (fs w))) k \<noteq> Some Directory"
  shows "fst (extractFile f d w) = zReadErr f
       \<and> fs (snd (extractFile f d w))
           = fs_put k (Regular (zData f)) (fs_put k (Regular (Raw [])) (snd (mkdirs [] P (fs w))))"
proof -
  let ?w1 = "snd (os_MkdirAll (Join [d, Dir_of (zName f)]) w)"
  have f1: "fs ?w1 = snd (mkdirs [] P (fs w))"
    using assms(2) by (simp add: os_MkdirAll_def Let_def fs_emit9)
  let ?c = "os_Create (Join [d, zName f]) ?w1"
  have c: "fst ?c = Inr k \<and> fs (snd ?c) = fs_put k (Regular (Raw [])) (snd (mkdirs [] P (fs w)))"
    using assms(3,4,5,6) f1
    by (auto simp: os_Create_def Let_def fs_emit9 split: option.splits node.splits)
  then show ?thesis
    using assms(1) by (simp add: extractFile_def Let_def io_Copy_def fs_emit9)
qed

lemma step_dir:
  assumes e: "embeds T (resolve d) (fs w)"
    and rel: "rel \<noteq> []" "list_all validName rel" "noBackslash rel"
    and dirs: "\<forall>j. 0 < j \<and> j \<le> length rel \<longrightarrow> T (take j rel) = Some Directory"
  shows "\<exists>w'. extractBody defaultExtractFunc d [] (rename (openEntry (memberOf rel Directory))) (w, ())
            = (None, w', ())
          \<and> embeds T (resolve d) (fs w') \<and> keeps (fs w) (fs w')
          \<and> fs_lookup (fs w') (resolve d @ rel) = Some Directory"
proof -
  let ?K = "resolve d"
  let ?n = "joinc rel @ ''/''"
  let ?f = "openEntry (memberOf rel Directory)"
  have n: "zName (rename ?f) = ?n"
    using slashes_joinc_slash [OF rel(3)] by (simp add: rename_def openEntry_def memberOf_def)
  let ?w1 = "emit (EvVisit ?n None) w"
  have b: "extractBody defaultExtractFunc d [] (rename ?f) (w, ())
      = (None, snd (os_MkdirAll (Join [d, ?n]) ?w1), ())"
    using n suffix_joinc_slash [of rel]
    by (simp add: extractBody_def extractDir_def visit_def defaultExtractFunc_def Let_def)
  have r: "resolve (Join [d, ?n]) = ?K @ rel" using rel(2) by (rule resolve_Join_dir)
  have f: "fs (snd (os_MkdirAll (Join [d, ?n]) ?w1)) = snd (mkdirs [] (?K @ rel) (fs w))"
    using r by (simp add: os_MkdirAll_def Let_def fs_emit9)
  from mkdirs_embeds [OF e dirs] f b show ?thesis by simp
qed

lemma step_file:
  assumes e: "embeds T (resolve d) (fs w)"
    and rel: "rel \<noteq> []" "list_all validName rel" "noBackslash rel"
    and t: "T rel = Some (Regular dt)"
    and dirs: "\<forall>j. 0 < j \<and> j < length rel \<longrightarrow> T (take j rel) = Some Directory"
  shows "\<exists>w'. extractBody defaultExtractFunc d [] (rename (openEntry (memberOf rel (Regular dt)))) (w, ())
            = (None, w', ())
          \<and> embeds T (resolve d) (fs w') \<and> keeps (fs w) (fs w')
          \<and> fs_lookup (fs w') (resolve d @ rel) = Some (Regular dt)"
proof -
  let ?K = "resolve d"
  let ?n = "joinc rel"
  let ?f = "openEntry (memberOf rel (Regular dt))"
  define k where "k = ?K @ rel"
  have kne: "k \<noteq> []" using rel(1) by (simp add: k_def)
  have rn: "rename ?f = ?f"
    using slashes_joinc [OF rel(3)] by (simp add: rename_def openEntry_def memberOf_def)
  have n: "zName ?f = ?n" by (simp add: openEntry_def memberOf_def)
  let ?w1 = "emit (EvVisit ?n None) w"
  have b: "extractBody defaultExtractFunc d [] (rename ?f) (w, ())
      = (fst (extractFile ?f d ?w1), snd (extractFile ?f d ?w1), ())"
    using n rn not_suffix_joinc [OF rel(1,2)]
    by (simp add: extractBody_def extractReg_def visit_def defaultExtractFunc_def Let_def)
  define f2 where "f2 = snd (mkdirs [] (?K @ butlast rel) (fs w))"
  have dirs': "\<forall>j. 0 < j \<and> j \<le> length (butlast rel) \<longrightarrow> T (take j (butlast rel)) = Some Directory"
  proof (intro allI impI)
    fix j assume j: "0 < j \<and> j \<le> length (butlast rel)"
    have jl: "0 < j \<and> j < length rel" using j rel(1) by auto
    then have "take j (butlast rel) = take j rel" by (simp add: take_butlast)
    with jl show "T (take j (butlast rel)) = Some Directory" using dirs by simp
  qed
  from mkdirs_embeds [OF e dirs'] have m: "embeds T ?K f2" "keeps (fs w) f2"
    "fs_lookup f2 (?K @ butlast rel) = Some Directory"
    "\<And>q. \<not> prefix q (?K @ butlast rel) \<Longrightarrow> fs_lookup f2 q = fs_lookup (fs w) q"
    by (simp_all add: f2_def)
  have bk: "butlast k = ?K @ butlast rel" using rel(1) by (simp add: k_def butlast_append)
  have "\<not> prefix k (?K @ butlast rel)"
  proof
    assume "prefix k (?K @ butlast rel)"
    then have "length k \<le> length (?K @ butlast rel)" by (rule prefix_length_le)
    with rel(1) show False by (cases rel rule: rev_cases) (auto simp: k_def)
  qed
  from m(4) [OF this] have lk: "fs_lookup f2 k = fs_lookup (fs w) k" .
  from e rel(1) have old: "fs_lookup (fs w) k = None \<or> fs_lookup (fs w) k = Some (Regular dt)"
    using t by (auto simp: embeds_def k_def)
  then have nd: "fs_lookup f2 k \<noteq> Some Directory" using lk by auto
  define f4 where "f4 = fs_put k (Regular dt) (fs_put k (Regular (Raw [])) f2)"
  have x: "fst (extractFile ?f d ?w1) = None \<and> fs (snd (extractFile ?f d ?w1)) = f4"
    using extractFile_fs [where f = ?f and d = d and w = ?w1 and P = "?K @ butlast rel" and k = k]
      resolve_Join_parent [OF rel(1,2), of d] resolve_Join_file [OF rel(2), of d]
      kne m(3) nd bk
    by (simp add: n fs_emit9 f2_def f4_def k_def openEntry_def memberOf_def)
  have look4: "fs_lookup f4 p = (if p = k then Some (Regular dt) else fs_lookup f2 p)" for p
    by (simp add: f4_def lookup_put [OF kne])
  have e4: "embeds T ?K f4"
    unfolding embeds_def
  proof (intro conjI allI impI)
    fix i assume i: "i \<le> length ?K"
    have "take i ?K \<noteq> k"
    proof
      assume "take i ?K = k"
      then have "length (take i ?K) = length k" by simp
      with rel(1) show False by (cases rel) (auto simp: k_def)
    qed
    with m(1) i show "fs_lookup f4 (take i ?K) = Some Directory" by (simp add: look4 embeds_def)
  next
    fix rel' :: fpath assume "rel' \<noteq> []"
    with m(1) t show "fs_lookup f4 (?K @ rel') = None \<or> fs_lookup f4 (?K @ rel') = T rel'"
      by (auto simp: look4 embeds_def k_def)
  qed
  have k4: "keeps (fs w) f4"
    unfolding keeps_def
  proof (intro allI impI)
    fix p y assume py: "fs_lookup (fs w) p = Some y"
    show "fs_lookup f4 p = Some y"
    proof (cases "p = k")
      case True
      with py old show ?thesis by (simp add: look4)
    next
      case False
      with py m(2) show ?thesis by (simp add: look4 keeps_def)
    qed
  qed
  have "fs_lookup f4 (?K @ rel) = Some (Regular dt)" by (simp add: look4 k_def)
  with b x e4 k4 show ?thesis by simp
qed

lemma memberOf_inj:
  assumes "rel \<noteq> []" "rel' \<noteq> []" "list_all validName rel" "list_all validName rel'"
    and "memberOf rel x = memberOf rel' x'"
  shows "rel = rel' \<and> x = x'"
proof -
  have s1: "splitc (joinc rel) = rel" by (rule splitc_joinc [OF assms(1) valid_noslash [OF assms(3)]])
  have s2: "splitc (joinc rel') = rel'" by (rule splitc_joinc [OF assms(2) valid_noslash [OF assms(4)]])
  have j: "rel = rel'" if eq: "joinc rel = joinc rel'"
  proof -
    have "splitc (joinc rel) = splitc (joinc rel')" by (simp only: eq)
    then show ?thesis by (simp only: s1 s2)
  qed
  have ns0: "a @ ''/'' \<noteq> b" if "\<not> HasSuffixSlash b" for a b :: string
  proof
    assume "a @ ''/'' = b"
    then have "HasSuffixSlash b" by (auto simp: HasSuffixSlash_def)
    with that show False by simp
  qed
  have ns: "joinc rel @ ''/'' \<noteq> joinc rel'" "joinc rel' @ ''/'' \<noteq> joinc rel"
    by (rule ns0 [OF not_suffix_joinc [OF assms(2,4)]], rule ns0 [OF not_suffix_joinc [OF assms(1,3)]])
  show ?thesis
  proof (cases x)
    case Directory
    note xd = this
    show ?thesis
    proof (cases x')
      case Directory
      with xd assms(5) have "joinc rel = joinc rel'" by (simp add: memberOf_def)
      with j xd Directory show ?thesis by simp
    next
      case (Regular d')
      with xd assms(5) have "joinc rel @ ''/'' = joinc rel'" by (simp add: memberOf_def)
      with ns(1) show ?thesis by simp
    qed
  next
    case (Regular d)
    note xr = this
    show ?thesis
    proof (cases x')
      case Directory
      with xr assms(5) have "joinc rel' @ ''/'' = joinc rel" by (simp add: memberOf_def)
      with ns(2) show ?thesis by simp
    next
      case (Regular d')
      with xr assms(5) have "joinc rel = joinc rel'" "d = d'" by (simp_all add: memberOf_def)
      with j xr Regular show ?thesis by simp
    qed
  qed
qed

lemma extract_members:
  assumes Tc: "\<forall>rel x j. T rel = Some x \<and> 0 < j \<and> j < length rel \<longrightarrow> T (take j rel) = Some Directory"
    and good: "\<forall>m\<in>set ms. \<exists>rel x. m = memberOf rel x \<and> rel \<noteq> [] \<and> list_all validName rel
                  \<and> noBackslash rel \<and> T rel = Some x"
    and e: "embeds T (resolve d) (fs w)"
  shows "\<exists>zf' w'. extractLoop defaultExtractFunc d [] (map openEntry ms) (w, ()) = (None, zf', w', ())
          \<and> embeds T (resolve d) (fs w') \<and> keeps (fs w) (fs w')
          \<and> (\<forall>m\<in>set ms. \<exists>rel x. m = memberOf rel x \<and> rel \<noteq> [] \<and> list_all validName rel
                  \<and> T rel = Some x \<and> fs_lookup (fs w') (resolve d @ rel) = Some x)"
  using good e
proof (induction ms arbitrary: w)
  case Nil
  then show ?case by (simp add: keeps_refl)
next
  case (Cons m ms)
  from Cons.prems(1) obtain rel x where m: "m = memberOf rel x" "rel \<noteq> []"
      "list_all validName rel" "noBackslash rel" "T rel = Some x" by auto
  have above: "\<forall>j. 0 < j \<and> j < length rel \<longrightarrow> T (take j rel) = Some Directory"
    using Tc m(5) by blast
  have "\<exists>w1. extractBody defaultExtractFunc d [] (rename (openEntry m)) (w, ()) = (None, w1, ())
          \<and> embeds T (resolve d) (fs w1) \<and> keeps (fs w) (fs w1)
          \<and> fs_lookup (fs w1) (resolve d @ rel) = Some x"
  proof (cases x)
    case Directory
    have "\<forall>j. 0 < j \<and> j \<le> length rel \<longrightarrow> T (take j rel) = Some Directory"
    proof (intro allI impI)
      fix j assume j: "0 < j \<and> j \<le> length rel"
      show "T (take j rel) = Some Directory"
      proof (cases "j = length rel")
        case True
        with m(5) Directory show ?thesis by simp
      next
        case False
        with j above show ?thesis by simp
      qed
    qed
    from step_dir [OF Cons.prems(2) m(2,3,4) this] m(1) Directory show ?thesis by simp
  next
    case (Regular dt)
    from step_file [OF Cons.prems(2) m(2,3,4) m(5) [unfolded Regular] above] m(1) Regular
    show ?thesis by simp
  qed
  then obtain w1 where w1: "extractBody defaultExtractFunc d [] (rename (openEntry m)) (w, ()) = (None, w1, ())"
    "embeds T (resolve d) (fs w1)" "keeps (fs w) (fs w1)"
    "fs_lookup (fs w1) (resolve d @ rel) = Some x" by blast
  have g': "\<forall>m\<in>set ms. \<exists>rel x. m = memberOf rel x \<and> rel \<noteq> [] \<and> list_all validName rel
                  \<and> noBackslash rel \<and> T rel = Some x" using Cons.prems(1) by simp
  from Cons.IH [OF g' w1(2)] obtain zf' w' where
    l: "extractLoop defaultExtractFunc d [] (map openEntry ms) (w1, ()) = (None, zf', w', ())"
    and e': "embeds T (resolve d) (fs w')" and k': "keeps (fs w1) (fs w')"
    and r': "\<forall>m\<in>set ms. \<exists>rel x. m = memberOf rel x \<and> rel \<noteq> [] \<and> list_all validName rel
                  \<and> T rel = Some x \<and> fs_lookup (fs w') (resolve d @ rel) = Some x" by blast
  have "fs_lookup (fs w') (resolve d @ rel) = Some x" using w1(4) k' by (simp add: keeps_def)
  with m have hd: "\<exists>rel x. m = memberOf rel x \<and> rel \<noteq> [] \<and> list_all validName rel
                  \<and> T rel = Some x \<and> fs_lookup (fs w') (resolve d @ rel) = Some x" by blast
  have "extractLoop defaultExtractFunc d [] (map openEntry (m # ms)) (w, ())
      = (None, rename (openEntry m) # zf', w', ())"
    using w1(1) l by simp
  moreover have "keeps (fs w) (fs w')" using w1(3) k' by (rule keeps_trans)
  ultimately show ?case using e' hd r' by auto
qed

lemma keep_mkdirs_any:
  "fs_lookup f p = Some y \<Longrightarrow> fs_lookup (snd (mkdirs done cs f)) p = Some y"
proof (induction cs arbitrary: "done" f)
  case Nil
  then show ?case by simp
next
  case (Cons c cs)
  show ?case
  proof (cases "fs_lookup f (done @ [c])")
    case None
    with Cons.prems have "p \<noteq> done @ [c]" by auto
    then have "fs_lookup (fs_put (done @ [c]) Directory f) p = Some y"
      using Cons.prems by (simp add: lookup_put)
    from Cons.IH [OF this] None show ?thesis by (simp add: Let_def)
  next
    case (Some x)
    with Cons.IH [OF Cons.prems] Cons.prems show ?thesis
      by (cases x) (simp_all add: Let_def)
  qed
qed

lemma mkdirs_success:
  "fst (mkdirs done cs f) = None \<Longrightarrow> 0 < i \<Longrightarrow> i \<le> length cs \<Longrightarrow>
   fs_lookup (snd (mkdirs done cs f)) (done @ take i cs) = Some Directory"
proof (induction cs arbitrary: "done" f i)
  case Nil
  then show ?case by simp
next
  case (Cons c cs)
  let ?p0 = "done @ [c]"
  obtain j where i: "i = Suc j" using Cons.prems(2) by (cases i) auto
  have t: "done @ take i (c # cs) = ?p0 @ take j cs" using i by simp
  show ?case
  proof (cases "fs_lookup f ?p0")
    case None
    let ?f = "fs_put ?p0 Directory f"
    have res: "mkdirs done (c # cs) f = mkdirs ?p0 cs ?f" using None by (simp add: Let_def)
    have ok: "fst (mkdirs ?p0 cs ?f) = None" using Cons.prems(1) res by simp
    have l0: "fs_lookup ?f ?p0 = Some Directory" by (simp add: lookup_put)
    show ?thesis
    proof (cases j)
      case 0
      with keep_mkdirs_any [OF l0, of ?p0 cs] res t show ?thesis by simp
    next
      case (Suc n)
      with Cons.IH [OF ok, of j] Cons.prems(3) i res t show ?thesis by simp
    qed
  next
    case (Some x)
    show ?thesis
    proof (cases x)
      case Directory
      have res: "mkdirs done (c # cs) f = mkdirs ?p0 cs f" using Some Directory by (simp add: Let_def)
      have ok: "fst (mkdirs ?p0 cs f) = None" using Cons.prems(1) res by simp
      have l0: "fs_lookup f ?p0 = Some Directory" using Some Directory by simp
      show ?thesis
      proof (cases j)
        case 0
        with keep_mkdirs_any [OF l0, of ?p0 cs] res t show ?thesis by simp
      next
        case (Suc n)
        with Cons.IH [OF ok, of j] Cons.prems(3) i res t show ?thesis by simp
      qed
    next
      case (Regular d)
      with Some Cons.prems(1) show ?thesis by (simp add: Let_def)
    qed
  qed
qed

lemma mkdirs_other:
  "\<not> (\<exists>i. 0 < i \<and> i \<le> length cs \<and> p = done @ take i cs) \<Longrightarrow>
   fs_lookup (snd (mkdirs done cs f)) p = fs_lookup f p"
proof (induction cs arbitrary: "done" f)
  case Nil
  show ?case by simp
next
  case (Cons c cs)
  let ?p0 = "done @ [c]"
  have p0: "p \<noteq> ?p0"
  proof
    assume "p = ?p0"
    then have "0 < (1::nat) \<and> 1 \<le> length (c # cs) \<and> p = done @ take 1 (c # cs)" by simp
    with Cons.prems show False by blast
  qed
  have rec: "\<not> (\<exists>i. 0 < i \<and> i \<le> length cs \<and> p = ?p0 @ take i cs)"
  proof
    assume "\<exists>i. 0 < i \<and> i \<le> length cs \<and> p = ?p0 @ take i cs"
    then obtain i where "0 < i" "i \<le> length cs" "p = ?p0 @ take i cs" by blast
    then have "0 < Suc i \<and> Suc i \<le> length (c # cs) \<and> p = done @ take (Suc i) (c # cs)" by simp
    with Cons.prems show False by blast
  qed
  show ?case
  proof (cases "fs_lookup f ?p0")
    case None
    with Cons.IH [OF rec, of "fs_put ?p0 Directory f"] p0 show ?thesis
      by (simp add: Let_def lookup_put)
  next
    case (Some x)
    with Cons.IH [OF rec, of f] show ?thesis by (cases x) (simp_all add: Let_def)
  qed
qed

section \<open>A file put beside a tree\<close>

lemma set_fs_put: "k' \<noteq> k \<Longrightarrow> ((k', x) \<in> set (fs_put k v f)) = ((k', x) \<in> set f)"
  by (induction f) (auto split: if_splits)

lemma distinct_fs_put: "distinct (map fst f) \<Longrightarrow> distinct (map fst (fs_put k v f))"
proof (induction f)
  case Nil
  show ?case by simp
next
  case (Cons a f)
  obtain k' v' where a: "a = (k', v')" by (cases a)
  show ?case
  proof (cases "k' = k")
    case True
    with Cons.prems a show ?thesis by simp
  next
    case False
    have "k' \<notin> fst ` set (fs_put k v f)"
    proof
      assume "k' \<in> fst ` set (fs_put k v f)"
      then obtain x where "(k', x) \<in> set (fs_put k v f)" by force
      with False have "(k', x) \<in> set f" by (simp add: set_fs_put)
      then have "k' \<in> fst ` set f" by force
      with Cons.prems a show False by simp
    qed
    with Cons a False show ?thesis by simp
  qed
qed

lemma below_not_outside:
  "\<not> prefix k kB \<Longrightarrow> prefix k p \<Longrightarrow> p \<noteq> kB"
  by auto

lemma tree_put:
  assumes t: "treeBelow f k" and o: "\<not> prefix k kB" and ne: "kB \<noteq> []"
  shows "treeBelow (fs_put kB v f) k"
proof -
  have d: "distinct (map fst (fs_put kB v f))" using t by (simp add: treeBelow_def distinct_fs_put)
  have "list_all validName (drop (length k) (fst e))
        \<and> fs_lookup (fs_put kB v f) (butlast (fst e)) = Some Directory"
    if e: "e \<in> set (fs_put kB v f)" and sp: "strict_prefix k (fst e)" for e
  proof -
    obtain p x where px: "e = (p, x)" by (cases e)
    have "p \<noteq> kB" using o sp px by (auto simp: strict_prefix_def)
    with e px have m: "(p, x) \<in> set f" by (simp add: set_fs_put)
    from sp px have skp: "strict_prefix k p" by simp
    have a: "list_all validName (drop (length k) p)" by (rule tree_valid [OF t m skp])
    have "prefix k (butlast p)" using skp
      by (auto simp: strict_prefix_def prefix_def butlast_append)
    then have "butlast p \<noteq> kB" using o by auto
    with tree_parent [OF t m skp] ne have "fs_lookup (fs_put kB v f) (butlast p) = Some Directory"
      by (simp add: lookup_put)
    with a px show ?thesis by simp
  qed
  with d show ?thesis unfolding treeBelow_def list_all_iff by blast
qed

lemma unfiltered_put:
  assumes "unfiltered g f k" and "\<not> prefix k kB"
  shows "unfiltered g (fs_put kB v f) k"
  unfolding unfiltered_def list_all_iff
proof (intro ballI impI)
  fix e assume e: "e \<in> set (fs_put kB v f)" and sp: "strict_prefix k (fst e)"
  obtain p x where px: "e = (p, x)" by (cases e)
  have "p \<noteq> kB" using assms(2) sp px by (auto simp: strict_prefix_def)
  with e px have "(p, x) \<in> set f" by (simp add: set_fs_put)
  with assms(1) sp px show "\<not> g (last (fst e))" by (auto simp: unfiltered_def list_all_iff)
qed

lemma expected_put:
  assumes "\<not> prefix k kB"
  shows "expected (fs_put kB v f) k (strict_prefix k) = expected f k (strict_prefix k)"
proof -
  have "((p, x) \<in> set (fs_put kB v f) \<and> strict_prefix k p) = ((p, x) \<in> set f \<and> strict_prefix k p)"
    for p x
  proof (cases "strict_prefix k p")
    case True
    then have "p \<noteq> kB" using assms by (auto simp: strict_prefix_def)
    then show ?thesis by (simp add: set_fs_put)
  next
    case False
    then show ?thesis by simp
  qed
  then show ?thesis by (simp add: expected_def)
qed

lemma tree_ancestors:
  assumes t: "treeBelow f k"
  shows "(p, x) \<in> set f \<Longrightarrow> strict_prefix k q \<Longrightarrow> strict_prefix q p \<Longrightarrow>
         fs_lookup f q = Some Directory"
proof (induction "length p" arbitrary: p x rule: less_induct)
  case less
  have skp: "strict_prefix k p" using less.prems(2,3) by (auto simp: strict_prefix_def prefix_def)
  from tree_parent [OF t less.prems(1) skp] have par: "fs_lookup f (butlast p) = Some Directory" .
  from less.prems(3) obtain zs where p: "p = q @ zs" "zs \<noteq> []"
    by (auto simp: strict_prefix_def prefix_def)
  then have bp: "butlast p = q @ butlast zs" by (simp add: butlast_append)
  show ?case
  proof (cases "butlast zs = []")
    case True
    with bp par show ?thesis by simp
  next
    case False
    with bp have sq: "strict_prefix q (butlast p)" by (auto simp: strict_prefix_def prefix_def)
    have bne: "butlast p \<noteq> []" using bp False by simp
    from lookup_memD [OF par bne] have bm: "(butlast p, Directory) \<in> set f" .
    have "length (butlast p) < length p" using p by simp
    from less.hyps [OF this bm less.prems(2) sq] show ?thesis .
  qed
qed

section \<open>The archive of a tree and its extraction\<close>

lemma os_Create_Inr:
  assumes "os_Create p w = (Inr k, w')"
  shows "k = resolve p \<and> k \<noteq> [] \<and> fs w' = fs_put k (Regular (Raw [])) (fs w)"
  using assms
  by (auto simp: os_Create_def Let_def emit_def split: if_splits option.splits node.splits)

lemma PackTo_members:
  assumes tree: "treeBelow (fs w1) (resolve D)"
    and unf: "unfiltered g (fs w1) (resolve D)"
    and dirD: "fs_lookup (fs w1) (resolve D) = Some Directory"
    and out: "\<not> prefix (resolve D) (resolve B)"
    and pk: "PackTo g D B [] w1 = (None, w2)"
  shows "\<exists>ms. set ms = expected (fs w1) (resolve D) (strict_prefix (resolve D))
            \<and> resolve B \<noteq> []
            \<and> (\<forall>p. fs_lookup (fs w2) p =
                  (if p = resolve B then Some (Regular (Packed ms)) else fs_lookup (fs w1) p))"
proof -
  let ?k = "resolve D"
  let ?zw0 = "\<lparr>members = [], hdrErr = (\<lambda>n. None)\<rparr>"
  obtain rc wc where c: "os_Create B w1 = (rc, wc)" by (cases "os_Create B w1")
  from pk c obtain kB where rc: "rc = Inr kB"
    by (cases rc) (auto simp: PackTo_def PackToFunc_def packTo_def split: prod.splits)
  from os_Create_Inr [OF c [unfolded rc]] have kB: "kB = resolve B" "kB \<noteq> []"
      "fs wc = fs_put kB (Regular (Raw [])) (fs w1)" by auto
  have fc: "fs_lookup (fs wc) p = (if p = kB then Some (Regular (Raw [])) else fs_lookup (fs w1) p)" for p
    by (simp add: kB(3) lookup_put [OF kB(2)])
  have ne: "?k \<noteq> kB" using out kB(1) by auto
  have dc: "fs_lookup (fs wc) ?k = Some Directory" using fc [of ?k] ne dirD by simp
  obtain r tr3 zw3 v3 where pd:
    "packDir g (fs wc) defaultPackFunc D [] (trace wc @ [EvOpen ?k], ?zw0, ()) = (r, tr3, zw3, v3)"
    by (metis prod_cases4)
  have pw: "packToWriter g D defaultPackFunc False (wc, ?zw0, ()) = (r, wc\<lparr>trace := tr3\<rparr>, zw3, v3)"
    using dc pd by (simp add: packToWriter_def Let_def infoOf_def)
  from pk c rc pw have r: "r = None"
    and w2: "w2 = emit (EvWrite kB) (wc\<lparr>trace := tr3, fs := fs_put kB (Regular (Packed (members zw3))) (fs wc)\<rparr>)"
    by (auto simp: PackTo_def PackToFunc_def packTo_def)
  have tc: "treeBelow (fs wc) ?k" unfolding kB(3) using tree out kB(1,2) by (simp add: tree_put)
  have uc: "unfiltered g (fs wc) ?k" unfolding kB(3) using unf out kB(1) by (simp add: unfiltered_put)
  have "\<exists>ms. members (fst (snd (tr3, zw3, v3))) = members (fst (snd (trace wc @ [EvOpen ?k], ?zw0, ()))) @ ms
             \<and> set ms = expected (fs wc) ?k (strict_prefix (?k @ []))"
    by (rule pack_members(1) [OF tc uc _ _ _ pd [unfolded r]]) simp_all
  then have ms: "set (members zw3) = expected (fs wc) ?k (strict_prefix ?k)" by simp
  have "expected (fs wc) ?k (strict_prefix ?k) = expected (fs w1) ?k (strict_prefix ?k)"
    unfolding kB(3) using out kB(1) by (simp add: expected_put)
  with ms have m1: "set (members zw3) = expected (fs w1) ?k (strict_prefix ?k)" by simp
  have "fs w2 = fs_put kB (Regular (Packed (members zw3))) (fs wc)" by (simp add: w2 emit_def)
  then have "fs_lookup (fs w2) p =
      (if p = kB then Some (Regular (Packed (members zw3))) else fs_lookup (fs w1) p)" for p
    by (simp add: lookup_put [OF kB(2)] fc)
  with m1 kB(1,2) show ?thesis by blast
qed

lemma nothingBelow_None:
  assumes "nothingBelow f K" and "rel \<noteq> []"
  shows "fs_lookup f (K @ rel) = None"
proof (cases "fs_lookup f (K @ rel)")
  case None
  then show ?thesis .
next
  case (Some y)
  from assms(2) have "K @ rel \<noteq> []" by simp
  from lookup_memD [OF Some this] have "(K @ rel, y) \<in> set f" .
  with assms(1) have "\<not> strict_prefix K (K @ rel)" by (auto simp: nothingBelow_def list_all_iff)
  with assms(2) show ?thesis by (simp add: strict_prefix_def)
qed

lemma MkdirAll_embeds:
  assumes fresh: "nothingBelow (fs w) (resolve d)"
    and mk: "fst (os_MkdirAll d w) = None"
  shows "embeds T (resolve d) (fs (snd (os_MkdirAll d w)))"
proof -
  let ?K = "resolve d"
  let ?f = "snd (mkdirs [] ?K (fs w))"
  have f: "fs (snd (os_MkdirAll d w)) = ?f" by (simp add: os_MkdirAll_def Let_def emit_def)
  from mk have ok: "fst (mkdirs [] ?K (fs w)) = None" by (simp add: os_MkdirAll_def Let_def)
  have a: "fs_lookup ?f (take i ?K) = Some Directory" if "i \<le> length ?K" for i
  proof (cases "i = 0")
    case True
    then show ?thesis by (simp add: fs_lookup_def)
  next
    case False
    with that mkdirs_success [OF ok, of i] show ?thesis by simp
  qed
  have b: "fs_lookup ?f (?K @ rel) = None" if "rel \<noteq> []" for rel
  proof -
    have "\<not> (\<exists>i. 0 < i \<and> i \<le> length ?K \<and> ?K @ rel = [] @ take i ?K)"
    proof
      assume "\<exists>i. 0 < i \<and> i \<le> length ?K \<and> ?K @ rel = [] @ take i ?K"
      then obtain i where "?K @ rel = take i ?K" by auto
      then have "length (?K @ rel) = length (take i ?K)" by simp
      with that show False by (cases rel) auto
    qed
    from mkdirs_other [OF this] nothingBelow_None [OF fresh that] show ?thesis by simp
  qed
  show ?thesis unfolding f embeds_def using a b by blast
qed

lemma ExtractTo_members:
  assumes Tc: "\<forall>rel x j. T rel = Some x \<and> 0 < j \<and> j < length rel \<longrightarrow> T (take j rel) = Some Directory"
    and good: "\<forall>m\<in>set ms. \<exists>rel x. m = memberOf rel x \<and> rel \<noteq> [] \<and> list_all validName rel
                  \<and> noBackslash rel \<and> T rel = Some x"
    and fresh: "nothingBelow (fs w) (resolve (slashes d))"
    and mk: "fst (os_MkdirAll (slashes d) w) = None"
  shows "\<exists>z' w'. ExtractTo (z\<lparr>ReadCloser := Some (map openEntry ms)\<rparr>) d [] w = (None, z', w')
          \<and> embeds T (resolve (slashes d)) (fs w')
          \<and> (\<forall>m\<in>set ms. \<exists>rel x. m = memberOf rel x \<and> rel \<noteq> [] \<and> list_all validName rel
                  \<and> T rel = Some x \<and> fs_lookup (fs w') (resolve (slashes d) @ rel) = Some x)"
proof -
  let ?wm = "snd (os_MkdirAll (slashes d) w)"
  from extract_members [OF Tc good MkdirAll_embeds [OF fresh mk]]
  obtain zf' w' where
    l: "extractLoop defaultExtractFunc (slashes d) [] (map openEntry ms) (?wm, ()) = (None, zf', w', ())"
    and e: "embeds T (resolve (slashes d)) (fs w')"
    and m: "\<forall>m\<in>set ms. \<exists>rel x. m = memberOf rel x \<and> rel \<noteq> [] \<and> list_all validName rel
                  \<and> T rel = Some x \<and> fs_lookup (fs w') (resolve (slashes d) @ rel) = Some x"
    by blast
  have "ExtractTo (z\<lparr>ReadCloser := Some (map openEntry ms)\<rparr>) d [] w
      = (None, z\<lparr>ReadCloser := Some zf'\<rparr>, w')"
    using l by (simp add: ExtractTo_def ExtractToFunc_def Let_def)
  with e m show ?thesis by blast
qed

section \<open>Extracting, packing and extracting again\<close>

text \<open>
  C9, as the code has it. Let \<open>ExtractTo\<close> of the archive \<open>A\<close> into \<open>D\<close> succeed and
  leave, at \<open>D\<close>, a directory whose content is a tree of properly named files and
  directories, none with a backslash in its name and none with a name that the exclusion
  predicate of the package matches. Let \<open>PackTo\<close> of \<open>D\<close> into an archive \<open>B\<close> that
  lies neither at nor below \<open>D\<close> succeed. Then \<open>B\<close> is an archive, its extraction into a
  directory \<open>D'\<close> that can be created and has nothing below it succeeds, and below
  \<open>D'\<close> there is exactly what there is below \<open>D\<close>: the same relative paths, each with
  the same kind and the same content.
\<close>

theorem round_trip:
  assumes ex: "ExtractTo zA D [] w0 = (None, zA', w1)"
    and dirD: "fs_lookup (fs w1) (resolve D) = Some Directory"
    and tree: "treeBelow (fs w1) (resolve D)"
    and plain: "plainBelow (fs w1) (resolve D)"
    and unf: "unfiltered g (fs w1) (resolve D)"
    and out: "\<not> prefix (resolve D) (resolve B)"
    and pk: "PackTo g D B [] w1 = (None, w2)"
    and fresh: "nothingBelow (fs w2) (resolve (slashes D'))"
    and mk: "fst (os_MkdirAll (slashes D') w2) = None"
  shows "fst (ExtractTo (zB\<lparr>ReadCloser := OpenReader B w2\<rparr>) D' [] w2) = None
       \<and> (\<forall>rel. rel \<noteq> [] \<longrightarrow>
            fs_lookup (fs (snd (snd (ExtractTo (zB\<lparr>ReadCloser := OpenReader B w2\<rparr>) D' [] w2))))
              (resolve (slashes D') @ rel)
            = fs_lookup (fs w1) (resolve D @ rel))"
proof -
  let ?k = "resolve D"
  let ?K = "resolve (slashes D')"
  let ?f = "fs w1"
  define T where "T = (\<lambda>rel. fs_lookup ?f (?k @ rel))"
  from PackTo_members [OF tree unf dirD out pk] obtain ms where
    ms: "set ms = expected ?f ?k (strict_prefix ?k)"
    and B: "fs_lookup (fs w2) (resolve B) = Some (Regular (Packed ms))"
    by auto
  have rd: "OpenReader B w2 = Some (map openEntry ms)" by (simp add: OpenReader_def B)
  have d: "distinct (map fst ?f)" by (rule tree_distinct [OF tree])
  have Tc: "\<forall>rel x j. T rel = Some x \<and> 0 < j \<and> j < length rel \<longrightarrow> T (take j rel) = Some Directory"
  proof (intro allI impI)
    fix rel x j assume a: "T rel = Some x \<and> 0 < j \<and> j < length rel"
    then have ne: "?k @ rel \<noteq> []" by auto
    from a have "fs_lookup ?f (?k @ rel) = Some x" by (simp add: T_def)
    from lookup_memD [OF this ne] have m: "(?k @ rel, x) \<in> set ?f" .
    have 1: "strict_prefix ?k (?k @ take j rel)" using a by (cases rel) (auto simp: strict_prefix_def)
    have "rel = take j rel @ drop j rel" by simp
    then have "?k @ rel = (?k @ take j rel) @ drop j rel" by simp
    moreover have "drop j rel \<noteq> []" using a by simp
    ultimately have 2: "strict_prefix (?k @ take j rel) (?k @ rel)"
      unfolding strict_prefix_def prefix_def by (metis append_self_conv)
    from tree_ancestors [OF tree m 1 2] show "T (take j rel) = Some Directory" by (simp add: T_def)
  qed
  have mem: "memberOf rel x \<in> set ms \<and> list_all validName rel" if r: "rel \<noteq> []" and t: "T rel = Some x"
    for rel x
  proof -
    from r have ne: "?k @ rel \<noteq> []" by simp
    from t have "fs_lookup ?f (?k @ rel) = Some x" by (simp add: T_def)
    from lookup_memD [OF this ne] have m: "(?k @ rel, x) \<in> set ?f" .
    have sp: "strict_prefix ?k (?k @ rel)" using r by (simp add: strict_prefix_def)
    from tree_valid [OF tree m sp] have v: "list_all validName rel" by simp
    have "memberOf (drop (length ?k) (?k @ rel)) x \<in> expected ?f ?k (strict_prefix ?k)"
      unfolding expected_def using m sp by blast
    with ms v show ?thesis by simp
  qed
  have good: "\<forall>m\<in>set ms. \<exists>rel x. m = memberOf rel x \<and> rel \<noteq> [] \<and> list_all validName rel
                  \<and> noBackslash rel \<and> T rel = Some x"
  proof
    fix m assume "m \<in> set ms"
    with ms obtain p x where px: "m = memberOf (drop (length ?k) p) x" "(p, x) \<in> set ?f"
        "strict_prefix ?k p" by (auto simp: expected_def)
    from px(3) obtain rel where rel: "p = ?k @ rel" "rel \<noteq> []"
      by (auto simp: strict_prefix_def prefix_def)
    from tree_valid [OF tree px(2,3)] rel have v: "list_all validName rel" by simp
    from plain px(2,3) rel have nb: "noBackslash rel" by (auto simp: plainBelow_def list_all_iff)
    have "p \<noteq> []" using rel by simp
    from lookup_mem [OF d px(2) this] rel have "T rel = Some x" by (simp add: T_def)
    with px(1) rel v nb show "\<exists>rel x. m = memberOf rel x \<and> rel \<noteq> [] \<and> list_all validName rel
                  \<and> noBackslash rel \<and> T rel = Some x" by auto
  qed
  from ExtractTo_members [OF Tc good fresh mk, of zB] obtain z' w' where
    e: "ExtractTo (zB\<lparr>ReadCloser := Some (map openEntry ms)\<rparr>) D' [] w2 = (None, z', w')"
    and em: "embeds T ?K (fs w')"
    and all: "\<forall>m\<in>set ms. \<exists>rel x. m = memberOf rel x \<and> rel \<noteq> [] \<and> list_all validName rel
                  \<and> T rel = Some x \<and> fs_lookup (fs w') (?K @ rel) = Some x"
    by blast
  have "fs_lookup (fs w') (?K @ rel) = T rel" if r: "rel \<noteq> []" for rel
  proof (cases "T rel")
    case None
    with em r show ?thesis unfolding embeds_def by metis
  next
    case (Some x)
    from mem [OF r Some] have m: "memberOf rel x \<in> set ms" and v: "list_all validName rel" by auto
    from all m obtain rel' x' where
      o: "memberOf rel x = memberOf rel' x'" "rel' \<noteq> []" "list_all validName rel'"
         "fs_lookup (fs w') (?K @ rel') = Some x'" by blast
    from memberOf_inj [OF r o(2) v o(3) o(1)] have "rel = rel'" "x = x'" by auto
    with o(4) Some show ?thesis by simp
  qed
  then show ?thesis unfolding rd e by (simp add: T_def)
qed

theorem round_trip_witness:
  "fst (ExtractTo
         (holding (OpenReader ''/x.zip''
            (packed ((=) ''.git'') ''/out'' ''/x.zip''
               (extracted (holding (Some [openEntry (''a.txt'', 2, Raw [1, 2]),
                                          openEntry (''sub/b.txt'', 1, Raw [3])]))
                  ''/out'' \<lparr>fs = [], trace = []\<rparr>))))
         ''/out2'' []
         (packed ((=) ''.git'') ''/out'' ''/x.zip''
            (extracted (holding (Some [openEntry (''a.txt'', 2, Raw [1, 2]),
                                       openEntry (''sub/b.txt'', 1, Raw [3])]))
               ''/out'' \<lparr>fs = [], trace = []\<rparr>))) = None
   \<and> fs_lookup
         (fs (extracted
           (holding (OpenReader ''/x.zip''
              (packed ((=) ''.git'') ''/out'' ''/x.zip''
                 (extracted (holding (Some [openEntry (''a.txt'', 2, Raw [1, 2]),
                                            openEntry (''sub/b.txt'', 1, Raw [3])]))
                    ''/out'' \<lparr>fs = [], trace = []\<rparr>))))
           ''/out2''
           (packed ((=) ''.git'') ''/out'' ''/x.zip''
              (extracted (holding (Some [openEntry (''a.txt'', 2, Raw [1, 2]),
                                         openEntry (''sub/b.txt'', 1, Raw [3])]))
                 ''/out'' \<lparr>fs = [], trace = []\<rparr>))))
         [''out2'', ''sub'', ''b.txt'']
     = Some (Regular (Raw [3]))"
proof -
  let ?zA = "holding (Some [openEntry (''a.txt'', 2, Raw [1, 2]),
                            openEntry (''sub/b.txt'', 1, Raw [3])])"
  let ?w0 = "\<lparr>fs = [], trace = []\<rparr>"
  let ?g = "(=) ''.git''"
  define w1 where "w1 = extracted ?zA ''/out'' ?w0"
  define w2 where "w2 = packed ?g ''/out'' ''/x.zip'' w1"
  have f1: "fs w1 = [([''out''], Directory), ([''out'', ''a.txt''], Regular (Raw [1, 2])),
                     ([''out'', ''sub''], Directory), ([''out'', ''sub'', ''b.txt''], Regular (Raw [3]))]"
    unfolding w1_def by code_simp
  have e1: "fst (ExtractTo ?zA ''/out'' [] ?w0) = None" by code_simp
  have ex: "ExtractTo ?zA ''/out'' [] ?w0 = (None, fst (snd (ExtractTo ?zA ''/out'' [] ?w0)), w1)"
    unfolding w1_def extracted_def using e1 by (metis prod.collapse)
  have rD: "resolve ''/out'' = [''out'']" by code_simp
  have rB: "resolve ''/x.zip'' = [''x.zip'']" by code_simp
  have rD': "resolve (slashes ''/out2'') = [''out2'']" by code_simp
  have dirD: "fs_lookup (fs w1) (resolve ''/out'') = Some Directory" unfolding f1 rD by code_simp
  have tree: "treeBelow (fs w1) (resolve ''/out'')" unfolding f1 rD by code_simp
  have plain: "plainBelow (fs w1) (resolve ''/out'')" unfolding f1 rD by code_simp
  have unf: "unfiltered ?g (fs w1) (resolve ''/out'')" unfolding f1 rD by code_simp
  have out: "\<not> prefix (resolve ''/out'') (resolve ''/x.zip'')" unfolding rD rB by simp
  have p1: "fst (PackTo ?g ''/out'' ''/x.zip'' [] w1) = None" unfolding w1_def by code_simp
  have pk: "PackTo ?g ''/out'' ''/x.zip'' [] w1 = (None, w2)"
    unfolding w2_def packed_def using p1 by (metis prod.collapse)
  have f2: "map fst (fs w2) = [[''out''], [''out'', ''a.txt''], [''out'', ''sub''],
                               [''out'', ''sub'', ''b.txt''], [''x.zip'']]"
    unfolding w2_def w1_def by code_simp
  have fresh: "nothingBelow (fs w2) (resolve (slashes ''/out2''))"
    unfolding rD' nothingBelow_def list_all_iff using f2 by (auto simp: strict_prefix_def)
  have mk: "fst (os_MkdirAll (slashes ''/out2'') w2) = None" unfolding w2_def w1_def by code_simp
  have l: "fs_lookup (fs w1) (resolve ''/out'' @ [''sub'', ''b.txt'']) = Some (Regular (Raw [3]))"
    unfolding f1 rD by code_simp
  have h: "(holding None)\<lparr>ReadCloser := rc\<rparr> = holding rc" for rc by (simp add: holding_def)
  from round_trip [OF ex dirD tree plain unf out pk fresh mk, of "holding None"]
  have a: "fst (ExtractTo (holding (OpenReader ''/x.zip'' w2)) ''/out2'' [] w2) = None"
    and b: "fs_lookup (fs (snd (snd (ExtractTo (holding (OpenReader ''/x.zip'' w2)) ''/out2'' [] w2))))
              ([''out2''] @ [''sub'', ''b.txt''])
            = fs_lookup (fs w1) (resolve ''/out'' @ [''sub'', ''b.txt''])"
    unfolding h rD' by auto
  from a b l show ?thesis unfolding w2_def w1_def extracted_def [symmetric] by simp
qed

text \<open>
  C9 as stated fails in two ways. When the exclusion predicate matches a name of the
  extracted tree (here \<open>.git\<close>), \<open>packDir\<close> skips that name and all below it:
  \<open>.git/config\<close> is below \<open>/out\<close> and not below \<open>/out2\<close>. When the new archive
  is created inside the directory that is packed (\<open>/out/x.zip\<close>), \<open>packDir\<close> finds
  the archive file that \<open>os.Create\<close> has just made and packs it into itself: \<open>x.zip\<close>
  is below \<open>/out2\<close> and was not below \<open>/out\<close> when the extraction of \<open>A\<close> ended.
\<close>

theorem round_trip_counterexample:
  "fst (ExtractTo (holding (Some [openEntry (''.git/config'', 1, Raw [7])])) ''/out'' []
          \<lparr>fs = [], trace = []\<rparr>) = None
   \<and> fs_lookup (fs (extracted (holding (Some [openEntry (''.git/config'', 1, Raw [7])])) ''/out''
          \<lparr>fs = [], trace = []\<rparr>)) [''out'', ''.git'', ''config''] = Some (Regular (Raw [7]))
   \<and> fst (PackTo ((=) ''.git'') ''/out'' ''/x.zip'' []
          (extracted (holding (Some [openEntry (''.git/config'', 1, Raw [7])])) ''/out''
             \<lparr>fs = [], trace = []\<rparr>)) = None
   \<and> fst (ExtractTo
          (holding (OpenReader ''/x.zip''
             (packed ((=) ''.git'') ''/out'' ''/x.zip''
                (extracted (holding (Some [openEntry (''.git/config'', 1, Raw [7])])) ''/out''
                   \<lparr>fs = [], trace = []\<rparr>))))
          ''/out2'' []
          (packed ((=) ''.git'') ''/out'' ''/x.zip''
             (extracted (holding (Some [openEntry (''.git/config'', 1, Raw [7])])) ''/out''
                \<lparr>fs = [], trace = []\<rparr>))) = None
   \<and> fs_lookup
         (fs (extracted
           (holding (OpenReader ''/x.zip''
              (packed ((=) ''.git'') ''/out'' ''/x.zip''
                 (extracted (holding (Some [openEntry (''.git/config'', 1, Raw [7])])) ''/out''
                    \<lparr>fs = [], trace = []\<rparr>))))
           ''/out2''
           (packed ((=) ''.git'') ''/out'' ''/x.zip''
              (extracted (holding (Some [openEntry (''.git/config'', 1, Raw [7])])) ''/out''
                 \<lparr>fs = [], trace = []\<rparr>))))
         [''out2'', ''.git'', ''config''] = None
   \<and> fst (ExtractTo (holding (Some [openEntry (''a.txt'', 2, Raw [1, 2])])) ''/out'' []
          \<lparr>fs = [], trace = []\<rparr>) = None
   \<and> fs_lookup (fs (extracted (holding (Some [openEntry (''a.txt'', 2, Raw [1, 2])])) ''/out''
          \<lparr>fs = [], trace = []\<rparr>)) [''out'', ''x.zip''] = None
   \<and> fst (PackTo (\<lambda>n. False) ''/out'' ''/out/x.zip'' []
          (extracted (holding (Some [openEntry (''a.txt'', 2, Raw [1, 2])])) ''/out''
             \<lparr>fs = [], trace = []\<rparr>)) = None
   \<and> fst (ExtractTo
          (holding (OpenReader ''/out/x.zip''
             (packed (\<lambda>n. False) ''/out'' ''/out/x.zip''
                (extracted (holding (Some [openEntry (''a.txt'', 2, Raw [1, 2])])) ''/out''
                   \<lparr>fs = [], trace = []\<rparr>))))
          ''/out2'' []
          (packed (\<lambda>n. False) ''/out'' ''/out/x.zip''
             (extracted (holding (Some [openEntry (''a.txt'', 2, Raw [1, 2])])) ''/out''
                \<lparr>fs = [], trace = []\<rparr>))) = None
   \<and> fs_lookup
         (fs (extracted
           (holding (OpenReader ''/out/x.zip''
              (packed (\<lambda>n. False) ''/out'' ''/out/x.zip''
                 (extracted (holding (Some [openEntry (''a.txt'', 2, Raw [1, 2])])) ''/out''
                    \<lparr>fs = [], trace = []\<rparr>))))
           ''/out2''
           (packed (\<lambda>n. False) ''/out'' ''/out/x.zip''
              (extracted (holding (Some [openEntry (''a.txt'', 2, Raw [1, 2])])) ''/out''
                 \<lparr>fs = [], trace = []\<rparr>))))
         [''out2'', ''x.zip''] = Some (Regular (Raw []))"
  by (intro conjI; code_simp)

end
